theory Spec2Isabelle
  imports Main "HOL-Library.Word" "HOL-Library.Signed_Division"
begin

section \<open>Constants of sender.c and receiver.c\<close>

text \<open>
  Both files carry the same macros. \<open>PACKET_SIZE\<close> is \<open>HEADER_SIZE + DATA_SIZE\<close> without
  parentheses; every use in the two files is an array size, a function argument or the right
  side of an assignment, so the missing parentheses never change a value.
  The C \<open>int\<close>s of the two programs are sizes up to 5004, sequence numbers up to 109 and
  counters up to 101 in every run considered below, far from \<open>2^31\<close>, so they are modelled
  as \<open>int\<close>; \<open>%\<close> is C's truncating remainder \<open>smod\<close>, \<open>/\<close> is \<open>sdiv\<close>.
\<close>

type_synonym byte = "8 word"

definition HEADER_SIZE :: int where "HEADER_SIZE = 2"
definition DATA_SIZE :: int where "DATA_SIZE = 500"
definition PACKET_SIZE :: int where "PACKET_SIZE = HEADER_SIZE + DATA_SIZE"
definition ACKPACKET_SIZE :: int where "ACKPACKET_SIZE = 1"
definition WINDOW_SIZE :: int where "WINDOW_SIZE = 10"
definition MAX_TIMEOUTS :: int where "MAX_TIMEOUTS = 100"
definition MAX_START_SEQ :: int where "MAX_START_SEQ = MAX_TIMEOUTS"

section \<open>Bytes on the wire and C's plain char\<close>

text \<open>
  Packet buffers are arrays of plain \<open>char\<close>. On the x86 and x86-64 ABIs of the POSIX
  systems this socket code is written for, plain \<open>char\<close> is signed: reading a buffer byte
  into an \<open>int\<close> (\<open>const int seqNo = packet[0]\<close>, \<open>buf[0] >= seq\<close>) sign-extends it, and
  storing an \<open>int\<close> into a \<open>char\<close> keeps the low eight bits. \<open>uchar_to_int\<close> is the
  reading where plain \<open>char\<close> is unsigned.
\<close>

definition char_to_int :: "byte \<Rightarrow> int" where
  "char_to_int c = sint c"

definition uchar_to_int :: "byte \<Rightarrow> int" where
  "uchar_to_int c = uint c"

definition int_to_char :: "int \<Rightarrow> byte" where
  "int_to_char n = word_of_int n"

section \<open>Sequence space\<close>

text \<open>
  The end of \<open>sendFile\<close>'s and of \<open>receiveFile\<close>'s loop body, the same text in both:
  \<^verbatim>\<open>if (seq == MAX_START_SEQ) seq = 0; else seq += WINDOW_SIZE;\<close>
\<close>

definition advance :: "int \<Rightarrow> int" where
  "advance seq = (if seq = MAX_START_SEQ then 0 else seq + WINDOW_SIZE)"

text \<open>
  The window test of \<open>recvAcks\<close> and \<open>recvPackets\<close>:
  \<^verbatim>\<open>bool isPrevWindowAck = true; const int seqEnd = seq + WINDOW_SIZE - 1;
  if (v >= seq && v <= seqEnd) isPrevWindowAck = false;\<close>
  and the slot \<^verbatim>\<open>v % WINDOW_SIZE\<close>.
\<close>

definition isPrevWindowAck :: "int \<Rightarrow> int \<Rightarrow> bool" where
  "isPrevWindowAck seq v =
     (let seqEnd = seq + WINDOW_SIZE - 1 in \<not> (v \<ge> seq \<and> v \<le> seqEnd))"

definition packetNumber :: "int \<Rightarrow> int" where
  "packetNumber v = v smod WINDOW_SIZE"

text \<open>The sequence bases an endpoint goes through: \<open>seq = 0\<close>, then one \<open>advance\<close> a window.\<close>

definition seqBase :: "nat \<Rightarrow> int" where
  "seqBase k = (advance ^^ k) 0"

definition validBase :: "int \<Rightarrow> bool" where
  "validBase b = (0 \<le> b \<and> b \<le> 100 \<and> b smod 10 = 0)"

section \<open>The datagram transport\<close>

text \<open>
  A socket is modelled by what \<open>recvfrom\<close> will return, call after call (\<open>inbox\<close>), by how
  many \<open>sendto\<close> calls succeed before one returns -1 (\<open>sendsLeft\<close>, \<open>None\<close> when none
  ever fails; the first failure ends the program, so nothing after it matters), and by the
  datagrams handed to \<open>sendto\<close> so far (\<open>outbox\<close>).

  A data datagram is split at its header: byte 0, byte 1 and the bytes after them. Datagrams
  shorter than \<open>HEADER_SIZE\<close>, for which \<open>recvPackets\<close> would read header bytes that
  \<open>recvfrom\<close> never wrote, are outside the model. An ack datagram is its byte 0:
  \<open>recvAcks\<close> asks for \<open>ACKPACKET_SIZE\<close> bytes and reads \<open>buf[0]\<close> only.
\<close>

record dgram =
  hdrSeq :: byte
  hdrEof :: byte
  body :: "byte list"

datatype 'd recv_result = Datagram 'd | Timeout | RecvFailure

record ('i, 'o) transport =
  inbox :: "'i recv_result list"
  sendsLeft :: "nat option"
  outbox :: "'o list"

datatype error = ReceiverNotResponding | RecvfromFailed | SendtoFailed | AckSendFailed

text \<open>What a call may do besides returning: \<open>die\<close>, or wait in \<open>recvfrom\<close> for ever.\<close>

datatype ('a, 's) outcome = Returned 'a | Died error | Blocked 's

definition sendto :: "'o \<Rightarrow> ('i, 'o) transport \<Rightarrow> ('i, 'o) transport option" where
  "sendto d net =
     (case sendsLeft net of
        None \<Rightarrow> Some (net\<lparr>outbox := outbox net @ [d]\<rparr>)
      | Some 0 \<Rightarrow> None
      | Some (Suc k) \<Rightarrow> Some (net\<lparr>sendsLeft := Some k, outbox := outbox net @ [d]\<rparr>))"

text \<open>
  The sender's socket has \<open>SO_RCVTIMEO\<close> set to 100 ms: when nothing is left to arrive,
  \<open>recvfrom\<close> times out. The receiver's socket has no timeout: when nothing is left to
  arrive, \<open>recvfrom\<close> never returns.
\<close>

definition recvfrom_timeout ::
  "('i, 'o) transport \<Rightarrow> 'i recv_result \<times> ('i, 'o) transport" where
  "recvfrom_timeout net =
     (case inbox net of
        [] \<Rightarrow> (Timeout, net)
      | r # rest \<Rightarrow> (r, net\<lparr>inbox := rest\<rparr>))"

definition recvfrom_blocking ::
  "('i, 'o) transport \<Rightarrow> ('i recv_result \<times> ('i, 'o) transport) option" where
  "recvfrom_blocking net =
     (case inbox net of
        [] \<Rightarrow> None
      | r # rest \<Rightarrow> Some (r, net\<lparr>inbox := rest\<rparr>))"

section \<open>The file being sent\<close>

text \<open>
  A \<open>FILE*\<close> opened for reading: the bytes not yet read and the end-of-file indicator.
  \<open>fread\<close> sets the indicator only when it asks for more bytes than are left, so reading
  exactly the rest of a file leaves \<open>feof\<close> false.
\<close>

record infile =
  unread :: "byte list"
  eofIndicator :: bool

definition fread :: "nat \<Rightarrow> infile \<Rightarrow> byte list \<times> infile" where
  "fread n f =
     (take n (unread f),
      f\<lparr>unread := drop n (unread f),
        eofIndicator := (eofIndicator f \<or> length (unread f) < n)\<rparr>)"

definition feof :: "infile \<Rightarrow> bool" where
  "feof f = eofIndicator f"

definition fopen_rb :: "byte list \<Rightarrow> infile" where
  "fopen_rb P = \<lparr>unread = P, eofIndicator = False\<rparr>"

section \<open>sender.c\<close>

definition calculatePacketSize :: "int \<Rightarrow> bool \<Rightarrow> int" where
  "calculatePacketSize bufSize isLastPacket =
     (if isLastPacket then
        (let remainder = bufSize smod DATA_SIZE in
         if remainder = 0 then PACKET_SIZE else remainder + HEADER_SIZE)
      else PACKET_SIZE)"

definition initAcks :: "bool list" where
  "initAcks = replicate (nat WINDOW_SIZE) False"

text \<open>
  What \<open>recvAcks\<close> does with one ack byte, after \<open>totalTimeouts = 0\<close>: the test
  \<^verbatim>\<open>if (!isPrevWindowAck && !acks[packetNumber])\<close> evaluates left to right, so the flag array is
  read only for an in-window value, whose slot is 0..9.
\<close>

definition ackStep :: "int \<Rightarrow> bool list \<times> int \<Rightarrow> byte \<Rightarrow> bool list \<times> int" where
  "ackStep seq st b =
     (let acks = fst st; totalAcks = snd st;
          v = char_to_int b;
          n = packetNumber v
      in if \<not> isPrevWindowAck seq v \<and> \<not> acks ! nat n
         then (acks[nat n := True], totalAcks + 1)
         else (acks, totalAcks))"

text \<open>
  \<open>recvAcks\<close>: the \<open>while (true)\<close> loop. \<open>totalTimeouts\<close> is the function's \<open>static\<close>
  counter, passed in and returned. Result: \<open>totalAcks\<close>, the flag array, the counter and the
  socket.
\<close>

function recvAcksLoop ::
  "int \<Rightarrow> bool list \<Rightarrow> int \<Rightarrow> int \<Rightarrow> (byte, 'o) transport \<Rightarrow>
   error + (int \<times> bool list \<times> int \<times> (byte, 'o) transport)" where
  "recvAcksLoop seq acks totalAcks totalTimeouts net =
     (case recvfrom_timeout net of
        (Timeout, net') \<Rightarrow>
          (let totalTimeouts = totalTimeouts + 1 in
           if totalTimeouts > MAX_TIMEOUTS then Inl ReceiverNotResponding
           else Inr (totalAcks, acks, totalTimeouts, net'))
      | (RecvFailure, net') \<Rightarrow> Inl RecvfromFailed
      | (Datagram b, net') \<Rightarrow>
          (let totalTimeouts = 0;
               st = ackStep seq (acks, totalAcks) b
           in recvAcksLoop seq (fst st) (snd st) totalTimeouts net'))"
  by pat_completeness auto

definition recvAcks ::
  "int \<Rightarrow> bool list \<Rightarrow> int \<Rightarrow> (byte, 'o) transport \<Rightarrow>
   error + (int \<times> bool list \<times> int \<times> (byte, 'o) transport)" where
  "recvAcks seq acks totalTimeouts net = recvAcksLoop seq acks 0 totalTimeouts net"

text \<open>
  Building one packet in \<open>sendPackets\<close>. \<open>buf\<close> is the caller's array, 5000 bytes in
  \<open>sendFile\<close>. \<^verbatim>\<open>memcpy(packet + HEADER_SIZE, buf + bufIndex, packetSize)\<close> copies
  \<open>packetSize\<close> bytes from offset \<open>bufIndex\<close> of \<open>buf\<close> to offset \<open>HEADER_SIZE\<close> of the
  array \<open>char packet[PACKET_SIZE]\<close>; \<open>packetCopy\<close> gives the first offset written and the
  one after the last. \<open>sendto\<close> then transmits the first \<open>packetSize\<close> bytes of
  \<open>packet\<close>: the two header bytes and \<open>packetSize - HEADER_SIZE\<close> bytes of \<open>buf\<close> from
  \<open>bufIndex\<close> on; \<open>makePacket\<close> is that datagram.

  The copy has no bounds check. Where it writes past the end of \<open>packet\<close> or reads past the
  end of \<open>buf\<close>, C gives the program no defined behaviour; the model goes on as a build
  without instrumentation does when the excess bytes disturb nothing, and records every such
  access in the sender's state (\<open>overruns\<close>), with the number of bytes past the end. A run
  is within what C defines only if it ends with no overrun recorded.
\<close>

definition packetCopy :: "int \<Rightarrow> int \<times> int" where
  "packetCopy packetSize = (HEADER_SIZE, HEADER_SIZE + packetSize)"

datatype overrun = PastPacket int | PastBuf int

definition copyOverruns :: "int \<Rightarrow> int \<Rightarrow> int \<Rightarrow> overrun list" where
  "copyOverruns bufCapacity bufIndex packetSize =
     (if snd (packetCopy packetSize) > PACKET_SIZE
      then [PastPacket (snd (packetCopy packetSize) - PACKET_SIZE)] else []) @
     (if bufIndex + packetSize > bufCapacity
      then [PastBuf (bufIndex + packetSize - bufCapacity)] else [])"

definition makePacket :: "byte list \<Rightarrow> int \<Rightarrow> int \<Rightarrow> int \<Rightarrow> bool \<Rightarrow> bool \<Rightarrow> int \<Rightarrow> dgram" where
  "makePacket buf bufIndex packetSize seq isLastPacket atEof i =
     \<lparr>hdrSeq = int_to_char (seq + i),
      hdrEof = (if isLastPacket \<and> atEof then 1 else 0),
      body = take (nat (packetSize - HEADER_SIZE)) (drop (nat bufIndex) buf)\<rparr>"

text \<open>
  The sender's process state: its socket, the \<open>static\<close> counter, the open file, and the
  out-of-bounds accesses made so far.
\<close>

record sender =
  snet :: "(byte, dgram) transport"
  totalTimeouts :: int
  sfile :: infile
  overruns :: "overrun list"

text \<open>
  The \<open>for\<close> loop of \<open>sendPackets\<close>: one sweep over the window's packets. \<open>sendFile\<close>
  passes at most 5000 bytes, so \<open>i\<close> stays below the ten entries of \<open>acks\<close>.
\<close>

function sendSweep ::
  "byte list \<Rightarrow> int \<Rightarrow> int \<Rightarrow> bool list \<Rightarrow> int \<Rightarrow> int \<Rightarrow> int \<Rightarrow> sender \<Rightarrow> error + sender" where
  "sendSweep buf bufSize seq acks numberOfPackets i bufIndex s =
     (if i < numberOfPackets then
        (let isLastPacket = (i + 1 = numberOfPackets);
             packetSize = calculatePacketSize bufSize isLastPacket
         in if acks ! nat i then
              sendSweep buf bufSize seq acks numberOfPackets (i + 1)
                (bufIndex + (packetSize - HEADER_SIZE)) s
            else
              (let s1 = s\<lparr>overruns := overruns s @
                           copyOverruns (int (length buf)) bufIndex packetSize\<rparr>
               in case sendto (makePacket buf bufIndex packetSize seq isLastPacket
                                 (feof (sfile s1)) i) (snet s1) of
                    None \<Rightarrow> Inl SendtoFailed
                  | Some net' \<Rightarrow>
                      sendSweep buf bufSize seq acks numberOfPackets (i + 1)
                        (bufIndex + (packetSize - HEADER_SIZE)) (s1\<lparr>snet := net'\<rparr>)))
      else Inr s)"
  by pat_completeness auto

definition numberOfPackets :: "int \<Rightarrow> int" where
  "numberOfPackets bufSize =
     (let n = bufSize sdiv DATA_SIZE in if bufSize smod DATA_SIZE \<noteq> 0 then n + 1 else n)"

text \<open>The \<open>while (totalAcks != numberOfPackets)\<close> loop of \<open>sendPackets\<close>.\<close>

function sendPacketsLoop ::
  "byte list \<Rightarrow> int \<Rightarrow> int \<Rightarrow> bool list \<Rightarrow> int \<Rightarrow> sender \<Rightarrow> error + sender" where
  "sendPacketsLoop buf bufSize seq acks totalAcks s =
     (if totalAcks \<noteq> numberOfPackets bufSize then
        (case sendSweep buf bufSize seq acks (numberOfPackets bufSize) 0 0 s of
           Inl e \<Rightarrow> Inl e
         | Inr s1 \<Rightarrow>
             (case recvAcks seq acks (totalTimeouts s1) (snet s1) of
                Inl e \<Rightarrow> Inl e
              | Inr (n, acks', tt', net'') \<Rightarrow>
                  sendPacketsLoop buf bufSize seq acks' (totalAcks + n)
                    (s1\<lparr>snet := net'', totalTimeouts := tt'\<rparr>)))
      else Inr s)"
  by pat_completeness auto

definition sendPackets :: "byte list \<Rightarrow> int \<Rightarrow> int \<Rightarrow> sender \<Rightarrow> error + sender" where
  "sendPackets buf bufSize seq s = sendPacketsLoop buf bufSize seq initAcks 0 s"

text \<open>
  The \<open>while (true)\<close> loop of \<open>sendFile\<close>. \<open>char buf[bufSize]\<close> is declared in the loop
  body, so C leaves its contents indeterminate at each iteration; the model keeps one array
  whose first contents are an argument, and \<open>fread\<close> overwrites its first \<open>bytesRead\<close>
  bytes.
\<close>

function sendFileLoop :: "byte list \<Rightarrow> int \<Rightarrow> sender \<Rightarrow> error + sender" where
  "sendFileLoop buf seq s =
     (let bufSize = DATA_SIZE * WINDOW_SIZE;
          rd = fread (nat bufSize) (sfile s);
          buf' = fst rd @ drop (length (fst rd)) buf;
          bytesRead = int (length (fst rd));
          s' = s\<lparr>sfile := snd rd\<rparr>
      in if bytesRead = 0 then Inr s'
         else (case sendPackets buf' bytesRead seq s' of
                 Inl e \<Rightarrow> Inl e
               | Inr s'' \<Rightarrow> sendFileLoop buf' (advance seq) s''))"
  by pat_completeness auto

text \<open>
  \<open>sendFile\<close> on a file with contents \<open>P\<close>, over a socket \<open>net\<close>; \<open>buf0\<close> is what the
  stack holds where \<open>buf\<close> is allocated.
\<close>

definition sendFile :: "byte list \<Rightarrow> byte list \<Rightarrow> (byte, dgram) transport \<Rightarrow> error + sender" where
  "sendFile buf0 P net =
     sendFileLoop buf0 0
       \<lparr>snet = net, totalTimeouts = 0, sfile = fopen_rb P, overruns = []\<rparr>"

section \<open>receiver.c\<close>

text \<open>
  The variables of one \<open>recvPackets\<close> call: its locals, and the caller's \<open>buf\<close> and
  \<open>eof\<close> that it writes through \<open>bufOut\<close> and \<open>eofOut\<close>.
\<close>

record rwindow =
  totalPacketsExpected :: int
  packetsReceived :: "bool list"
  totalPacketsReceived :: int
  bytesReceived :: int
  bufOut :: "byte list"
  eofOut :: bool

definition initPacketsReceived :: "bool list" where
  "initPacketsReceived = replicate (nat WINDOW_SIZE) False"

text \<open>
  \<open>memcpy(dst + off, src, n)\<close> on an array held as a list; \<open>src\<close> has the \<open>n\<close> bytes.
  The receiver only calls it with \<open>off + n\<close> within the array (\<open>receiver_copy_in_bounds\<close>
  below).
\<close>

definition memcpy :: "byte list \<Rightarrow> nat \<Rightarrow> byte list \<Rightarrow> byte list" where
  "memcpy dst off src = take off dst @ src @ drop (off + length src) dst"

text \<open>
  \<open>recvfrom(sock, packet, PACKET_SIZE, ...)\<close> stores at most \<open>PACKET_SIZE\<close> bytes of the
  datagram and returns how many it stored.
\<close>

definition received :: "dgram \<Rightarrow> int" where
  "received p = min PACKET_SIZE (HEADER_SIZE + int (length (body p)))"

text \<open>
  The body of \<open>recvPackets\<close>' loop between \<open>recvfrom\<close> and the ack. The source never
  assigns to \<open>packetsReceived\<close> after \<open>initPacketsReceived\<close>, and neither does the model.
\<close>

definition acceptPacket :: "int \<Rightarrow> rwindow \<Rightarrow> dgram \<Rightarrow> rwindow" where
  "acceptPacket seq w p =
     (let seqNo = char_to_int (hdrSeq p);
          n = packetNumber seqNo
      in if \<not> isPrevWindowAck seq seqNo \<and> \<not> packetsReceived w ! nat n then
           (let w1 = w\<lparr>bytesReceived := bytesReceived w + (received p - HEADER_SIZE),
                       totalPacketsReceived := totalPacketsReceived w + 1\<rparr>;
                w2 = (if hdrEof p \<noteq> 0
                      then w1\<lparr>eofOut := True, totalPacketsExpected := n + 1\<rparr>
                      else w1)
            in w2\<lparr>bufOut := memcpy (bufOut w2) (nat (n * DATA_SIZE))
                               (take (nat (received p - HEADER_SIZE)) (body p))\<rparr>)
         else w)"

text \<open>\<^verbatim>\<open>char ackPacket[] = {seqNo};\<close> with \<^verbatim>\<open>const int seqNo = packet[0];\<close>\<close>

definition ackPacket :: "dgram \<Rightarrow> byte" where
  "ackPacket p = int_to_char (char_to_int (hdrSeq p))"

text \<open>
  The \<open>while (totalPacketsReceived != totalPacketsExpected)\<close> loop of \<open>recvPackets\<close>.
  \<open>recvfrom\<close> returning -1 is fatal whatever \<open>errno\<close> says.
\<close>

function recvPacketsLoop ::
  "int \<Rightarrow> rwindow \<Rightarrow> (dgram, byte) transport \<Rightarrow>
   (rwindow \<times> (dgram, byte) transport, rwindow \<times> (dgram, byte) transport) outcome" where
  "recvPacketsLoop seq w net =
     (if totalPacketsReceived w \<noteq> totalPacketsExpected w then
        (case recvfrom_blocking net of
           None \<Rightarrow> Blocked (w, net)
         | Some (Datagram p, net1) \<Rightarrow>
             (let w' = acceptPacket seq w p in
              case sendto (ackPacket p) net1 of
                None \<Rightarrow> Died AckSendFailed
              | Some net2 \<Rightarrow> recvPacketsLoop seq w' net2)
         | Some (Timeout, net1) \<Rightarrow> Died RecvfromFailed
         | Some (RecvFailure, net1) \<Rightarrow> Died RecvfromFailed)
      else Returned (w, net))"
  by pat_completeness auto

definition initWindow :: "byte list \<Rightarrow> bool \<Rightarrow> rwindow" where
  "initWindow buf eof =
     \<lparr>totalPacketsExpected = WINDOW_SIZE,
      packetsReceived = initPacketsReceived,
      totalPacketsReceived = 0,
      bytesReceived = 0,
      bufOut = buf,
      eofOut = eof\<rparr>"

text \<open>\<open>recvPackets\<close> returns \<open>bytesReceived\<close>; \<open>buf\<close> and \<open>eof\<close> come back in the record.\<close>

definition recvPackets ::
  "byte list \<Rightarrow> bool \<Rightarrow> int \<Rightarrow> (dgram, byte) transport \<Rightarrow>
   (rwindow \<times> (dgram, byte) transport, rwindow \<times> (dgram, byte) transport) outcome" where
  "recvPackets buf eof seq net = recvPacketsLoop seq (initWindow buf eof) net"

text \<open>
  The receiver's process state: its socket and the bytes written to the output file.
  \<open>fwrite(buf, sizeof(char), bufSize, file)\<close> appends the first \<open>bufSize\<close> bytes of
  \<open>buf\<close>.
\<close>

record receiver =
  rnet :: "(dgram, byte) transport"
  written :: "byte list"

definition fwrite :: "byte list \<Rightarrow> int \<Rightarrow> byte list \<Rightarrow> byte list" where
  "fwrite buf bufSize file = file @ take (nat bufSize) buf"

text \<open>
  The \<open>while (!eof)\<close> loop of \<open>receiveFile\<close>; \<open>buf\<close> is declared in the loop body and
  modelled as in \<open>sendFileLoop\<close>.
\<close>

function receiveFileLoop ::
  "byte list \<Rightarrow> bool \<Rightarrow> int \<Rightarrow> receiver \<Rightarrow> (receiver, receiver) outcome" where
  "receiveFileLoop buf eof seq r =
     (if \<not> eof then
        (case recvPackets buf eof seq (rnet r) of
           Died e \<Rightarrow> Died e
         | Blocked (w, net') \<Rightarrow> Blocked (r\<lparr>rnet := net'\<rparr>)
         | Returned (w, net') \<Rightarrow>
             receiveFileLoop (bufOut w) (eofOut w) (advance seq)
               \<lparr>rnet = net', written = fwrite (bufOut w) (bytesReceived w) (written r)\<rparr>)
      else Returned r)"
  by pat_completeness auto

definition receiveFile :: "byte list \<Rightarrow> (dgram, byte) transport \<Rightarrow> (receiver, receiver) outcome" where
  "receiveFile buf0 net = receiveFileLoop buf0 False 0 \<lparr>rnet = net, written = []\<rparr>"

section \<open>Notions used to state the properties\<close>


text \<open>
  The packets of one sweep, in closed form: packet \<open>i\<close> of the window starts at
  \<open>i * DATA_SIZE\<close> in \<open>buf\<close>, and the sweep skips the slots already acked.
\<close>

definition sweepPackets :: "byte list \<Rightarrow> int \<Rightarrow> int \<Rightarrow> bool \<Rightarrow> bool list \<Rightarrow> dgram list" where
  "sweepPackets buf bufSize seq atEof acks =
     map (\<lambda>i. makePacket buf (i * DATA_SIZE)
                 (calculatePacketSize bufSize (i + 1 = numberOfPackets bufSize)) seq
                 (i + 1 = numberOfPackets bufSize) atEof i)
         (filter (\<lambda>i. \<not> acks ! nat i) [0..numberOfPackets bufSize - 1])"

text \<open>The out-of-bounds accesses of one sweep, for a \<open>buf\<close> of the given capacity.\<close>

definition sweepOverruns :: "int \<Rightarrow> int \<Rightarrow> bool list \<Rightarrow> overrun list" where
  "sweepOverruns bufCapacity bufSize acks =
     concat (map (\<lambda>i. copyOverruns bufCapacity (i * DATA_SIZE)
                         (calculatePacketSize bufSize (i + 1 = numberOfPackets bufSize)))
                 (filter (\<lambda>i. \<not> acks ! nat i) [0..numberOfPackets bufSize - 1]))"

text \<open>
  What a window should put on the wire for a chunk of the file: one packet per 500 bytes,
  numbered from the base, the last one flagged when the file has ended.
\<close>

definition packetCount :: "byte list \<Rightarrow> nat" where
  "packetCount chunk = (length chunk + 499) div 500"

definition windowPackets :: "byte list \<Rightarrow> int \<Rightarrow> bool \<Rightarrow> dgram list" where
  "windowPackets chunk seq atEof =
     map (\<lambda>i. \<lparr>hdrSeq = int_to_char (seq + int i),
                hdrEof = (if Suc i = packetCount chunk \<and> atEof then 1 else 0),
                body = take 500 (drop (500 * i) chunk)\<rparr>)
         [0..<packetCount chunk]"

text \<open>The acks of a window's packets: their sequence numbers, in order.\<close>

definition windowAcks :: "byte list \<Rightarrow> int \<Rightarrow> byte list" where
  "windowAcks chunk seq = map (\<lambda>i. int_to_char (seq + int i)) [0..<packetCount chunk]"

text \<open>
  The packets of a whole file, window after window from a base on, the flag of each window
  being that \<open>fread\<close> came back short; and the acks of these packets as a receive schedule
  for the sender: each window's acks, then the timeout that ends its receive phase.
\<close>

function allPackets :: "int \<Rightarrow> byte list \<Rightarrow> dgram list" where
  "allPackets seq P =
     (if P = [] then []
      else windowPackets (take 5000 P) seq (length P < 5000) @
           allPackets (advance seq) (drop 5000 P))"
  by pat_completeness auto

function timelyAcks :: "int \<Rightarrow> byte list \<Rightarrow> byte recv_result list" where
  "timelyAcks seq P =
     (if P = [] then []
      else map Datagram (windowAcks (take 5000 P) seq) @
           Timeout # timelyAcks (advance seq) (drop 5000 P))"
  by pat_completeness auto

text \<open>The out-of-bounds accesses of sending a whole file from the 5000-byte \<open>buf\<close>.\<close>

function allOverruns :: "byte list \<Rightarrow> overrun list" where
  "allOverruns P =
     (if P = [] then []
      else sweepOverruns 5000 (int (length (take 5000 P))) initAcks @
           allOverruns (drop 5000 P))"
  by pat_completeness auto

text \<open>
  The same in terms of the windows of the file: window \<open>k\<close> is the \<open>k\<close>-th block of
  5000 bytes, and its packets and acks are numbered from \<open>seqBase k\<close>.
\<close>

definition windowCount :: "byte list \<Rightarrow> nat" where
  "windowCount P = (length P + 4999) div 5000"

definition fileWindow :: "byte list \<Rightarrow> nat \<Rightarrow> byte list" where
  "fileWindow P k = take 5000 (drop (5000 * k) P)"

definition filePackets :: "byte list \<Rightarrow> dgram list" where
  "filePackets P =
     concat (map (\<lambda>k. windowPackets (fileWindow P k) (seqBase k) (length P < 5000 * Suc k))
                 [0..<windowCount P])"

definition fileAcks :: "byte list \<Rightarrow> byte recv_result list" where
  "fileAcks P =
     concat (map (\<lambda>k. map Datagram (windowAcks (fileWindow P k) (seqBase k)) @ [Timeout])
                 [0..<windowCount P])"

text \<open>The datagrams among the results of \<open>recvfrom\<close>, in order.\<close>

fun datagrams :: "'d recv_result list \<Rightarrow> 'd list" where
  "datagrams [] = []"
| "datagrams (Datagram d # rs) = d # datagrams rs"
| "datagrams (Timeout # rs) = datagrams rs"
| "datagrams (RecvFailure # rs) = datagrams rs"

section \<open>Termination of the loops\<close>

lemma recvfrom_timeout_shorter:
  "recvfrom_timeout net = (Datagram b, net') \<Longrightarrow> length (inbox net') < length (inbox net)"
  by (auto simp: recvfrom_timeout_def split: list.splits)

termination recvAcksLoop
  by (relation "measure (\<lambda>(seq, acks, totalAcks, totalTimeouts, net). length (inbox net))")
     (auto dest: recvfrom_timeout_shorter [OF sym])

declare recvAcksLoop.simps [simp del]

termination sendSweep
  by (relation "measure (\<lambda>(buf, bufSize, seq, acks, numberOfPackets, i, bufIndex, s).
        nat (numberOfPackets - i))") auto

declare sendSweep.simps [simp del]

lemma sendto_inbox: "sendto d net = Some net' \<Longrightarrow> inbox net' = inbox net"
  by (auto simp: sendto_def split: option.splits nat.splits)

lemma sendSweep_keeps:
  "sendSweep buf bufSize seq acks n i bufIndex s = Inr s' \<Longrightarrow>
   inbox (snet s') = inbox (snet s) \<and> totalTimeouts s' = totalTimeouts s \<and> sfile s' = sfile s"
proof (induction buf bufSize seq acks n i bufIndex s rule: sendSweep.induct)
  case (1 buf bufSize seq acks n i bufIndex s)
  show ?case
  proof (cases "i < n")
    case False
    with "1.prems" show ?thesis by (simp add: sendSweep.simps)
  next
    case True
    note lt = this
    let ?ps = "calculatePacketSize bufSize (i + 1 = n)"
    show ?thesis
    proof (cases "acks ! nat i")
      case True
      with lt "1.prems" "1.IH"(1) show ?thesis
        by (simp add: Let_def sendSweep.simps [of _ _ _ _ _ i])
    next
      case False
      let ?s1 = "s\<lparr>overruns := overruns s @ copyOverruns (int (length buf)) bufIndex ?ps\<rparr>"
      from False lt "1.prems" obtain net1 where
        s: "sendto (makePacket buf bufIndex ?ps seq (i + 1 = n) (feof (sfile ?s1)) i) (snet ?s1) = Some net1"
        and r: "sendSweep buf bufSize seq acks n (i + 1) (bufIndex + (?ps - HEADER_SIZE))
                  (?s1\<lparr>snet := net1\<rparr>) = Inr s'"
        by (auto simp: Let_def sendSweep.simps [of _ _ _ _ _ i] split: option.splits)
      from "1.IH"(2)[OF lt refl refl False refl s r] sendto_inbox[OF s] show ?thesis by simp
    qed
  qed
qed

lemma recvAcksLoop_measure:
  "recvAcksLoop seq acks totalAcks tt net = Inr (n, acks', tt', net') \<Longrightarrow>
   length (inbox net') < length (inbox net) \<or>
   (inbox net' = inbox net \<and> tt' = tt + 1 \<and> tt' \<le> MAX_TIMEOUTS)"
proof (induction seq acks totalAcks tt net rule: recvAcksLoop.induct)
  case (1 seq acks totalAcks tt net)
  show ?case
  proof (cases "recvfrom_timeout net")
    case (Pair r net1)
    show ?thesis
    proof (cases r)
      case Timeout
      with Pair "1.prems" show ?thesis
        by (auto simp: Let_def recvfrom_timeout_def recvAcksLoop.simps [of _ _ _ _ net] split: if_splits list.splits)
    next
      case RecvFailure
      with Pair "1.prems" show ?thesis by (simp add: recvAcksLoop.simps [of _ _ _ _ net])
    next
      case (Datagram b)
      with Pair "1.prems" have
        "recvAcksLoop seq (fst (ackStep seq (acks, totalAcks) b)) (snd (ackStep seq (acks, totalAcks) b)) 0 net1
           = Inr (n, acks', tt', net')"
        by (simp add: Let_def recvAcksLoop.simps [of _ _ _ _ net])
      from "1.IH"[OF Pair[symmetric] Datagram refl refl this] recvfrom_timeout_shorter[of net b net1] Pair Datagram
      show ?thesis by auto
    qed
  qed
qed

termination sendPacketsLoop
  apply (relation "measures [\<lambda>(buf, bufSize, seq, acks, totalAcks, s). length (inbox (snet s)),
                             \<lambda>(buf, bufSize, seq, acks, totalAcks, s). nat (MAX_TIMEOUTS + 1 - totalTimeouts s)]")
   apply simp
  apply (auto simp: recvAcks_def MAX_TIMEOUTS_def dest!: sendSweep_keeps recvAcksLoop_measure)
  done

declare sendPacketsLoop.simps [simp del]

lemma sendPacketsLoop_sfile:
  "sendPacketsLoop buf bufSize seq acks totalAcks s = Inr s' \<Longrightarrow> sfile s' = sfile s"
proof (induction buf bufSize seq acks totalAcks s rule: sendPacketsLoop.induct)
  case (1 buf bufSize seq acks totalAcks s)
  show ?case
  proof (cases "totalAcks \<noteq> numberOfPackets bufSize")
    case False
    with "1.prems" show ?thesis by (simp add: sendPacketsLoop.simps)
  next
    case True
    with "1.prems" obtain s1 n acks1 tt1 net2 where
      a: "sendSweep buf bufSize seq acks (numberOfPackets bufSize) 0 0 s = Inr s1"
      and b: "recvAcks seq acks (totalTimeouts s1) (snet s1) = Inr (n, acks1, tt1, net2)"
      and c: "sendPacketsLoop buf bufSize seq acks1 (totalAcks + n) (s1\<lparr>snet := net2, totalTimeouts := tt1\<rparr>) = Inr s'"
      by (simp add: sendPacketsLoop.simps [of _ _ _ _ totalAcks] split: sum.splits prod.splits)
    from "1.IH"[OF True a b refl refl refl c] sendSweep_keeps[OF a] show ?thesis by simp
  qed
qed

termination sendFileLoop
  apply (relation "measure (\<lambda>(buf, seq, s). length (unread (sfile s)))")
   apply simp
  apply (auto simp: sendPackets_def fread_def DATA_SIZE_def WINDOW_SIZE_def dest!: sendPacketsLoop_sfile)
  done

declare sendFileLoop.simps [simp del]

lemma recvfrom_blocking_shorter:
  "recvfrom_blocking net = Some (r, net') \<Longrightarrow> length (inbox net') < length (inbox net)"
  by (auto simp: recvfrom_blocking_def split: list.splits)

termination recvPacketsLoop
  apply (relation "measure (\<lambda>(seq, w, net). length (inbox net))")
   apply simp
  apply (auto dest!: recvfrom_blocking_shorter sendto_inbox)
  done

declare recvPacketsLoop.simps [simp del]

lemma recvPacketsLoop_inbox_le:
  "recvPacketsLoop seq w net = Returned (w', net') \<Longrightarrow> length (inbox net') \<le> length (inbox net)"
proof (induction seq w net rule: recvPacketsLoop.induct)
  case (1 seq w net)
  show ?case
  proof (cases "totalPacketsReceived w \<noteq> totalPacketsExpected w")
    case False
    with "1.prems" show ?thesis by (simp add: recvPacketsLoop.simps)
  next
    case True
    with "1.prems" obtain p net1 net2 where
      a: "recvfrom_blocking net = Some (Datagram p, net1)"
      and b: "sendto (ackPacket p) net1 = Some net2"
      and c: "recvPacketsLoop seq (acceptPacket seq w p) net2 = Returned (w', net')"
      by (simp add: recvPacketsLoop.simps [of _ w] Let_def
               split: option.splits prod.splits recv_result.splits)
    from "1.IH" True a b c
    have "length (inbox net') \<le> length (inbox net2)" by auto
    with recvfrom_blocking_shorter[OF a] sendto_inbox[OF b] show ?thesis by simp
  qed
qed

lemma recvPackets_inbox_less:
  assumes "recvPackets buf eof seq net = Returned (w', net')"
  shows "length (inbox net') < length (inbox net)"
proof -
  have ne: "totalPacketsReceived (initWindow buf eof) \<noteq> totalPacketsExpected (initWindow buf eof)"
    by (simp add: initWindow_def WINDOW_SIZE_def)
  with assms obtain p net1 net2 where
      a: "recvfrom_blocking net = Some (Datagram p, net1)"
      and b: "sendto (ackPacket p) net1 = Some net2"
      and c: "recvPacketsLoop seq (acceptPacket seq (initWindow buf eof) p) net2 = Returned (w', net')"
    by (simp add: recvPackets_def recvPacketsLoop.simps [of _ "initWindow buf eof"] Let_def
               split: option.splits prod.splits recv_result.splits)
  from recvPacketsLoop_inbox_le[OF c] recvfrom_blocking_shorter[OF a] sendto_inbox[OF b]
  show ?thesis by simp
qed

termination receiveFileLoop
  apply (relation "measure (\<lambda>(buf, eof, seq, r). length (inbox (rnet r)))")
   apply simp
  apply (auto dest!: recvPackets_inbox_less)
  done

declare receiveFileLoop.simps [simp del]

section \<open>Arithmetic of the C operators and of plain char\<close>

lemma smod_nonneg: "0 \<le> a \<Longrightarrow> 0 < b \<Longrightarrow> (a::int) smod b = a mod b"
  by (simp add: smod_int_alt_def sgn_if)

lemma sdiv_nonneg: "0 \<le> a \<Longrightarrow> 0 < b \<Longrightarrow> (a::int) sdiv b = a div b"
  by (simp add: signed_divide_int_def sgn_if)

lemma validBase_advance: "validBase b \<Longrightarrow> validBase (advance b)"
  unfolding validBase_def advance_def MAX_START_SEQ_def MAX_TIMEOUTS_def WINDOW_SIZE_def
  by (auto simp: smod_nonneg) presburger

lemma validBase_seqBase: "validBase (seqBase k)"
proof (induction k)
  case 0
  show ?case by (simp add: seqBase_def validBase_def)
next
  case (Suc k)
  then show ?case by (simp add: seqBase_def validBase_advance)
qed

lemma char_to_int_int_to_char: "char_to_int (int_to_char n) = (n + 128) mod 256 - 128"
  by (simp add: char_to_int_def int_to_char_def int_word_sint)

lemma uchar_to_int_int_to_char: "uchar_to_int (int_to_char n) = n mod 256"
  by (simp add: uchar_to_int_def int_to_char_def uint_word_of_int)

lemma int_to_char_char_to_int: "int_to_char (char_to_int b) = b"
  by (simp add: char_to_int_def int_to_char_def)

lemma int_to_char_uchar_to_int: "int_to_char (uchar_to_int b) = b"
  by (simp add: uchar_to_int_def int_to_char_def)

lemma char_to_int_range: "- 128 \<le> char_to_int b \<and> char_to_int b \<le> 127"
  using sint_ge[of b] sint_lt[of b] by (simp add: char_to_int_def)


lemma packetNumber_mod: "0 \<le> v \<Longrightarrow> packetNumber v = v mod 10"
  by (simp add: packetNumber_def WINDOW_SIZE_def smod_nonneg)

lemma in_window_slot:
  assumes "0 \<le> seq" "\<not> isPrevWindowAck seq v"
  shows "0 \<le> packetNumber v \<and> packetNumber v < 10"
proof -
  from assms have "0 \<le> v" by (simp add: isPrevWindowAck_def Let_def)
  then show ?thesis by (simp add: packetNumber_mod)
qed

section \<open>The sequence-number byte\<close>

text \<open>
  C9, as the code has it. A sequence number \<open>n\<close> in 0..127, which covers the numbers 0..109
  the protocol produces, written as byte 0 of a data packet or as the byte of an ack and read
  back through plain char, yields \<open>n\<close>; a byte in 128..255 is read back as \<open>n - 256\<close>.
  Whatever the byte, the receiver's ack carries it unchanged, and an unsigned reading of the
  byte would give \<open>n\<close> over the whole range.
\<close>

theorem seq_byte_roundtrip:
  assumes "0 \<le> n" and "n \<le> 255"
  shows "char_to_int (hdrSeq (makePacket buf bufIndex packetSize n isLastPacket atEof 0)) =
           (if n \<le> 127 then n else n - 256) \<and>
         char_to_int (int_to_char n) = (if n \<le> 127 then n else n - 256) \<and>
         ackPacket \<lparr>hdrSeq = int_to_char n, hdrEof = e, body = bs\<rparr> = int_to_char n \<and>
         uchar_to_int (int_to_char n) = n"
proof -
  from assms have "(n + 128) mod 256 - 128 = (if n \<le> 127 then n else n - 256)"
    by (auto simp: mod_pos_pos_trivial) (smt (verit) minus_mod_self2 mod_pos_pos_trivial)
  then have rd: "char_to_int (int_to_char n) = (if n \<le> 127 then n else n - 256)"
    by (simp only: char_to_int_int_to_char)
  from assms have urd: "uchar_to_int (int_to_char n) = n"
    by (simp add: uchar_to_int_int_to_char)
  have echo: "ackPacket \<lparr>hdrSeq = int_to_char n, hdrEof = e, body = bs\<rparr> = int_to_char n"
    by (simp add: ackPacket_def int_to_char_char_to_int)
  have "hdrSeq (makePacket buf bufIndex packetSize n isLastPacket atEof 0) = int_to_char n"
    by (simp add: makePacket_def)
  with rd urd echo show ?thesis by (simp only:)
qed

theorem seq_byte_roundtrip_witness:
  "(0::int) \<le> 109 \<and> (109::int) \<le> 255 \<and> char_to_int (int_to_char 109) = 109"
  using seq_byte_roundtrip [of 109] by simp

theorem seq_byte_200_counterexample:
  "(0::int) \<le> 200 \<and> (200::int) \<le> 255 \<and> char_to_int (int_to_char 200) = - 56 \<and>
   char_to_int (hdrSeq (makePacket [] 0 502 200 False False 0)) \<noteq> 200"
  by (simp add: char_to_int_int_to_char makePacket_def)

section \<open>One ack-collection phase\<close>

lemma recvfrom_timeout_Cons:
  "recvfrom_timeout (net\<lparr>inbox := r # rest\<rparr>) = (r, net\<lparr>inbox := rest\<rparr>)"
  by (simp add: recvfrom_timeout_def)

lemma recvAcksLoop_Datagram:
  "recvAcksLoop seq acks n tt (net\<lparr>inbox := Datagram b # rest\<rparr>) =
   recvAcksLoop seq (fst (ackStep seq (acks, n) b)) (snd (ackStep seq (acks, n) b)) 0
     (net\<lparr>inbox := rest\<rparr>)"
  by (subst recvAcksLoop.simps) (simp add: recvfrom_timeout_Cons Let_def)

lemma recvAcksLoop_Timeout:
  "recvAcksLoop seq acks n tt (net\<lparr>inbox := Timeout # rest\<rparr>) =
   (if tt + 1 > MAX_TIMEOUTS then Inl ReceiverNotResponding
    else Inr (n, acks, tt + 1, net\<lparr>inbox := rest\<rparr>))"
  by (subst recvAcksLoop.simps) (simp add: recvfrom_timeout_Cons Let_def)

lemma recvAcksLoop_Nil:
  "recvAcksLoop seq acks n tt (net\<lparr>inbox := []\<rparr>) =
   (if tt + 1 > MAX_TIMEOUTS then Inl ReceiverNotResponding
    else Inr (n, acks, tt + 1, net\<lparr>inbox := []\<rparr>))"
  by (subst recvAcksLoop.simps) (simp add: recvfrom_timeout_def Let_def)

lemma recvAcksLoop_RecvFailure:
  "recvAcksLoop seq acks n tt (net\<lparr>inbox := RecvFailure # rest\<rparr>) = Inl RecvfromFailed"
  by (subst recvAcksLoop.simps) (simp add: recvfrom_timeout_Cons)

lemma recvAcksLoop_acks:
  "recvAcksLoop seq acks n tt (net\<lparr>inbox := map Datagram bs @ rest\<rparr>) =
   recvAcksLoop seq (fst (foldl (ackStep seq) (acks, n) bs))
     (snd (foldl (ackStep seq) (acks, n) bs)) (if bs = [] then tt else 0)
     (net\<lparr>inbox := rest\<rparr>)"
proof (induction bs arbitrary: acks n tt)
  case Nil
  show ?case by simp
next
  case (Cons b bs)
  show ?case
    by (simp add: recvAcksLoop_Datagram Cons.IH [of "fst (ackStep seq (acks, n) b)"
          "snd (ackStep seq (acks, n) b)" 0])
qed

lemma recvAcks_phase:
  assumes "rest = [] \<or> hd rest = Timeout"
  shows "recvAcks seq acks tt (net\<lparr>inbox := map Datagram bs @ rest\<rparr>) =
         (let tt' = (if bs = [] then tt + 1 else 1) in
          if tt' > MAX_TIMEOUTS then Inl ReceiverNotResponding
          else Inr (snd (foldl (ackStep seq) (acks, 0) bs),
                    fst (foldl (ackStep seq) (acks, 0) bs), tt', net\<lparr>inbox := tl rest\<rparr>))"
proof (cases rest)
  case Nil
  then show ?thesis
    unfolding recvAcks_def recvAcksLoop_acks by (simp add: recvAcksLoop_Nil Let_def)
next
  case (Cons r rest')
  with assms have "r = Timeout" by simp
  with Cons show ?thesis
    unfolding recvAcks_def recvAcksLoop_acks by (simp add: recvAcksLoop_Timeout Let_def)
qed

section \<open>Acks: idempotence and the count of marked slots\<close>









section \<open>One sweep of the window\<close>

lemma sender_order:
  "s\<lparr>overruns := ov, snet := n\<rparr> = s\<lparr>snet := n, overruns := ov\<rparr>"
  "s\<lparr>overruns := ov, totalTimeouts := t\<rparr> = s\<lparr>totalTimeouts := t, overruns := ov\<rparr>"
  "s\<lparr>overruns := ov, sfile := f\<rparr> = s\<lparr>sfile := f, overruns := ov\<rparr>"
  "s\<lparr>sfile := f, snet := n\<rparr> = s\<lparr>snet := n, sfile := f\<rparr>"
  "s\<lparr>sfile := f, totalTimeouts := t\<rparr> = s\<lparr>totalTimeouts := t, sfile := f\<rparr>"
  "s\<lparr>totalTimeouts := t, snet := n\<rparr> = s\<lparr>snet := n, totalTimeouts := t\<rparr>"
  for s :: sender
  by (cases s, simp)+

lemma sendto_None: "sendsLeft net = None \<Longrightarrow> sendto d net = Some (net\<lparr>outbox := outbox net @ [d]\<rparr>)"
  by (simp add: sendto_def)

lemma sendSweep_from:
  assumes "sendsLeft (snet s) = None"
  shows "i < n \<longrightarrow> bufIndex = i * DATA_SIZE \<Longrightarrow>
         sendSweep buf bufSize seq acks n i bufIndex s =
         Inr (s\<lparr>snet := (snet s)\<lparr>outbox := outbox (snet s) @
                map (\<lambda>i. makePacket buf (i * DATA_SIZE) (calculatePacketSize bufSize (i + 1 = n))
                            seq (i + 1 = n) (feof (sfile s)) i)
                    (filter (\<lambda>i. \<not> acks ! nat i) [i..n - 1])\<rparr>,
                overruns := overruns s @
                  concat (map (\<lambda>i. copyOverruns (int (length buf)) (i * DATA_SIZE)
                                      (calculatePacketSize bufSize (i + 1 = n)))
                              (filter (\<lambda>i. \<not> acks ! nat i) [i..n - 1]))\<rparr>)"
  using assms
proof (induction buf bufSize seq acks n i bufIndex s rule: sendSweep.induct)
  case (1 buf bufSize seq acks n i bufIndex s)
  show ?case
  proof (cases "i < n")
    case False
    then show ?thesis by (simp add: sendSweep.simps [of _ _ _ _ _ i])
  next
    case True
    then have idx: "bufIndex = i * DATA_SIZE" using "1.prems" by simp
    let ?ps = "calculatePacketSize bufSize (i + 1 = n)"
    have nxt: "i + 1 < n \<longrightarrow> bufIndex + (?ps - HEADER_SIZE) = (i + 1) * DATA_SIZE"
      using idx by (simp add: calculatePacketSize_def PACKET_SIZE_def algebra_simps)
    have up: "[i..n - 1] = i # [i + 1..n - 1]" using True by (simp add: upto_rec1)
    show ?thesis
    proof (cases "acks ! nat i")
      case True
      from "1.IH"(1)[OF \<open>i < n\<close> refl refl True nxt "1.prems"(2)] True \<open>i < n\<close> up
      show ?thesis by (simp add: sendSweep.simps [of _ _ _ _ _ i] Let_def)
    next
      case False
      let ?s1 = "s\<lparr>overruns := overruns s @ copyOverruns (int (length buf)) bufIndex ?ps\<rparr>"
      let ?p = "makePacket buf bufIndex ?ps seq (i + 1 = n) (feof (sfile ?s1)) i"
      have s: "sendto ?p (snet ?s1) = Some ((snet ?s1)\<lparr>outbox := outbox (snet ?s1) @ [?p]\<rparr>)"
        using "1.prems"(2) by (intro sendto_None) simp
      have sl: "sendsLeft (snet (?s1\<lparr>snet := (snet ?s1)\<lparr>outbox := outbox (snet ?s1) @ [?p]\<rparr>\<rparr>)) = None"
        using "1.prems"(2) by simp
      from "1.IH"(2)[OF \<open>i < n\<close> refl refl False refl s nxt sl] False \<open>i < n\<close> up s idx
      show ?thesis by (simp add: sendSweep.simps [of _ _ _ _ _ i] Let_def)
    qed
  qed
qed

lemma sendSweep_packets:
  assumes "sendsLeft (snet s) = None"
  shows "sendSweep buf bufSize seq acks (numberOfPackets bufSize) 0 0 s =
         Inr (s\<lparr>snet := (snet s)\<lparr>outbox := outbox (snet s) @
                        sweepPackets buf bufSize seq (feof (sfile s)) acks\<rparr>,
                overruns := overruns s @ sweepOverruns (int (length buf)) bufSize acks\<rparr>)"
  using sendSweep_from[OF assms, of 0 "numberOfPackets bufSize" 0]
  by (simp add: sweepPackets_def sweepOverruns_def)

section \<open>Rounds of the window loop\<close>

lemma sendPacketsLoop_done:
  "sendPacketsLoop buf bufSize seq acks (numberOfPackets bufSize) s = Inr s"
  by (simp add: sendPacketsLoop.simps)

lemma sendPacketsLoop_round:
  assumes "totalAcks \<noteq> numberOfPackets bufSize" "sendsLeft (snet s) = None"
  shows "sendPacketsLoop buf bufSize seq acks totalAcks s =
         (case recvAcks seq acks (totalTimeouts s)
                 ((snet s)\<lparr>outbox := outbox (snet s) @
                     sweepPackets buf bufSize seq (feof (sfile s)) acks\<rparr>) of
            Inl e \<Rightarrow> Inl e
          | Inr (n, acks', tt', net'') \<Rightarrow>
              sendPacketsLoop buf bufSize seq acks' (totalAcks + n)
                (s\<lparr>snet := net'', totalTimeouts := tt',
                   overruns := overruns s @ sweepOverruns (int (length buf)) bufSize acks\<rparr>))"
  using assms
  by (subst sendPacketsLoop.simps)
     (simp add: sendSweep_packets sender_order split: sum.splits prod.splits)

lemma recvAcks_silent:
  assumes "inbox net = [] \<or> (\<exists>rest. inbox net = Timeout # rest)"
  shows "recvAcks seq acks tt net =
         (if tt + 1 > MAX_TIMEOUTS then Inl ReceiverNotResponding
          else Inr (0, acks, tt + 1, net\<lparr>inbox := tl (inbox net)\<rparr>))"
proof -
  have "net = net\<lparr>inbox := [] @ inbox net\<rparr>" by simp
  then have "recvAcks seq acks tt net = recvAcks seq acks tt (net\<lparr>inbox := map Datagram [] @ inbox net\<rparr>)"
    by simp
  also have "\<dots> = (if tt + 1 > MAX_TIMEOUTS then Inl ReceiverNotResponding
          else Inr (0, acks, tt + 1, net\<lparr>inbox := tl (inbox net)\<rparr>))"
    using assms by (subst recvAcks_phase) (auto simp: Let_def)
  finally show ?thesis .
qed

lemma sendPacketsLoop_timeouts:
  "totalAcks \<noteq> numberOfPackets bufSize \<Longrightarrow> sendsLeft (snet s) = None \<Longrightarrow>
   inbox (snet s) = replicate k Timeout @ rest \<Longrightarrow> totalTimeouts s + int k \<le> MAX_TIMEOUTS \<Longrightarrow>
   sendPacketsLoop buf bufSize seq acks totalAcks s =
   sendPacketsLoop buf bufSize seq acks totalAcks
     (s\<lparr>snet := (snet s)\<lparr>inbox := rest,
           outbox := outbox (snet s) @
             concat (replicate k (sweepPackets buf bufSize seq (feof (sfile s)) acks))\<rparr>,
        totalTimeouts := totalTimeouts s + int k,
        overruns := overruns s @
          concat (replicate k (sweepOverruns (int (length buf)) bufSize acks))\<rparr>)"
proof (induction k arbitrary: s)
  case 0
  then have "s\<lparr>snet := (snet s)\<lparr>inbox := rest\<rparr>\<rparr> = s" by auto
  then show ?case by simp
next
  case (Suc k)
  let ?sw = "sweepPackets buf bufSize seq (feof (sfile s)) acks"
  let ?ov = "sweepOverruns (int (length buf)) bufSize acks"
  let ?s1 = "s\<lparr>snet := (snet s)\<lparr>outbox := outbox (snet s) @ ?sw, inbox := replicate k Timeout @ rest\<rparr>,
                totalTimeouts := totalTimeouts s + 1, overruns := overruns s @ ?ov\<rparr>"
  have tt: "\<not> totalTimeouts s + 1 > MAX_TIMEOUTS" using Suc.prems(4) by simp
  have "sendPacketsLoop buf bufSize seq acks totalAcks s =
        sendPacketsLoop buf bufSize seq acks totalAcks ?s1"
    using Suc.prems(3) tt
    by (subst sendPacketsLoop_round[OF Suc.prems(1,2)], subst recvAcks_silent) simp_all
  also have "\<dots> = sendPacketsLoop buf bufSize seq acks totalAcks
     (?s1\<lparr>snet := (snet ?s1)\<lparr>inbox := rest,
           outbox := outbox (snet ?s1) @
             concat (replicate k (sweepPackets buf bufSize seq (feof (sfile ?s1)) acks))\<rparr>,
        totalTimeouts := totalTimeouts ?s1 + int k,
        overruns := overruns ?s1 @
          concat (replicate k (sweepOverruns (int (length buf)) bufSize acks))\<rparr>)"
    using Suc.prems by (intro Suc.IH) simp_all
  finally show ?case by (simp add: ac_simps)
qed

lemma sendPacketsLoop_budget_spent:
  assumes "totalAcks \<noteq> numberOfPackets bufSize" "sendsLeft (snet s) = None"
    "inbox (snet s) = [] \<or> (\<exists>rest. inbox (snet s) = Timeout # rest)"
    "totalTimeouts s \<ge> MAX_TIMEOUTS"
  shows "sendPacketsLoop buf bufSize seq acks totalAcks s = Inl ReceiverNotResponding"
  using assms(3,4)
  by (subst sendPacketsLoop_round[OF assms(1,2)], subst recvAcks_silent) auto

lemma sendPacketsLoop_abort:
  assumes "totalAcks \<noteq> numberOfPackets bufSize" "sendsLeft (snet s) = None"
    "inbox (snet s) = replicate k Timeout @ rest" "totalTimeouts s \<le> MAX_TIMEOUTS"
    "totalTimeouts s + int k > MAX_TIMEOUTS"
  shows "sendPacketsLoop buf bufSize seq acks totalAcks s = Inl ReceiverNotResponding"
proof -
  define j where "j = nat (MAX_TIMEOUTS - totalTimeouts s)"
  have j: "int j = MAX_TIMEOUTS - totalTimeouts s" "j < k" using assms(4,5) by (simp_all add: j_def)
  then have "replicate k Timeout = replicate j Timeout @ Timeout # replicate (k - j - 1) Timeout"
  proof -
    from j(2) have "k = j + Suc (k - j - 1)" by simp
    then have "replicate k Timeout = replicate (j + Suc (k - j - 1)) Timeout" by simp
    then show ?thesis by (simp only: replicate_add replicate_Suc)
  qed
  with assms(3) have ib: "inbox (snet s) = replicate j Timeout @ (Timeout # replicate (k - j - 1) Timeout @ rest)"
    by simp
  have "totalTimeouts s + int j \<le> MAX_TIMEOUTS" using j by simp
  from sendPacketsLoop_timeouts[OF assms(1,2) ib this]
  show ?thesis using j assms(2)
    by (simp add: sendPacketsLoop_budget_spent[OF assms(1)])
qed

lemma sendPacketsLoop_silence:
  assumes "totalAcks \<noteq> numberOfPackets bufSize" "sendsLeft (snet s) = None"
    "inbox (snet s) = []" "totalTimeouts s \<le> MAX_TIMEOUTS"
  shows "sendPacketsLoop buf bufSize seq acks totalAcks s = Inl ReceiverNotResponding"
  using assms(2-)
proof (induction "nat (MAX_TIMEOUTS - totalTimeouts s)" arbitrary: s)
  case 0
  then have "totalTimeouts s \<ge> MAX_TIMEOUTS" by simp
  with 0 show ?case by (intro sendPacketsLoop_budget_spent[OF assms(1)]) simp_all
next
  case (Suc m)
  let ?s1 = "s\<lparr>snet := (snet s)\<lparr>outbox := outbox (snet s) @ sweepPackets buf bufSize seq (feof (sfile s)) acks,
                                   inbox := []\<rparr>,
                totalTimeouts := totalTimeouts s + 1,
                overruns := overruns s @ sweepOverruns (int (length buf)) bufSize acks\<rparr>"
  from Suc.hyps(2) have lt: "\<not> totalTimeouts s + 1 > MAX_TIMEOUTS" by simp
  have "sendPacketsLoop buf bufSize seq acks totalAcks s = sendPacketsLoop buf bufSize seq acks totalAcks ?s1"
    using Suc.prems lt
    by (subst sendPacketsLoop_round[OF assms(1) Suc.prems(1)], subst recvAcks_silent) simp_all
  also have "\<dots> = Inl ReceiverNotResponding"
    using Suc.hyps(2) Suc.prems lt by (intro Suc.hyps(1)) simp_all
  finally show ?case .
qed

section \<open>The retry budget\<close>

text \<open>
  C3, as the code has it. The sender aborts with "Receiver not responding" when a receive
  times out with the counter already at \<open>MAX_TIMEOUTS\<close>, that is at the 101st timeout in a
  row since the last ack or since the start. In a window still waiting for acks: timeouts
  that keep the counter at or below 100 only add one sweep each; once they would take it
  above 100 the transfer aborts; silence for ever always ends in the abort; and a phase in
  which an ack arrives is never aborted.
\<close>

theorem retry_budget:
  assumes "totalAcks \<noteq> numberOfPackets bufSize" and "sendsLeft (snet s) = None"
    and "inbox (snet s) = replicate k Timeout @ rest" and "totalTimeouts s \<le> MAX_TIMEOUTS"
  shows "(totalTimeouts s + int k > MAX_TIMEOUTS \<or> rest = [] \<longrightarrow>
            sendPacketsLoop buf bufSize seq acks totalAcks s = Inl ReceiverNotResponding) \<and>
         (totalTimeouts s + int k \<le> MAX_TIMEOUTS \<longrightarrow>
            sendPacketsLoop buf bufSize seq acks totalAcks s =
            sendPacketsLoop buf bufSize seq acks totalAcks
              (s\<lparr>snet := (snet s)\<lparr>inbox := rest,
                    outbox := outbox (snet s) @
                      concat (replicate k (sweepPackets buf bufSize seq (feof (sfile s)) acks))\<rparr>,
                 totalTimeouts := totalTimeouts s + int k,
                 overruns := overruns s @
                   concat (replicate k (sweepOverruns (int (length buf)) bufSize acks))\<rparr>)) \<and>
         (bs \<noteq> [] \<longrightarrow>
            recvAcks seq acks tt (net\<lparr>inbox := map Datagram bs @ Timeout # rest'\<rparr>) =
            Inr (snd (foldl (ackStep seq) (acks, 0) bs),
                 fst (foldl (ackStep seq) (acks, 0) bs), 1, net\<lparr>inbox := rest'\<rparr>))"
proof -
  have a: "sendPacketsLoop buf bufSize seq acks totalAcks s = Inl ReceiverNotResponding"
    if "totalTimeouts s + int k > MAX_TIMEOUTS"
    using sendPacketsLoop_abort[OF assms that] .
  have b: "sendPacketsLoop buf bufSize seq acks totalAcks s =
            sendPacketsLoop buf bufSize seq acks totalAcks
              (s\<lparr>snet := (snet s)\<lparr>inbox := rest,
                    outbox := outbox (snet s) @
                      concat (replicate k (sweepPackets buf bufSize seq (feof (sfile s)) acks))\<rparr>,
                 totalTimeouts := totalTimeouts s + int k,
                 overruns := overruns s @
                   concat (replicate k (sweepOverruns (int (length buf)) bufSize acks))\<rparr>)"
    if "totalTimeouts s + int k \<le> MAX_TIMEOUTS"
    using sendPacketsLoop_timeouts[OF assms(1-3) that] .
  have c: "sendPacketsLoop buf bufSize seq acks totalAcks s = Inl ReceiverNotResponding"
    if "rest = []"
  proof (cases "totalTimeouts s + int k > MAX_TIMEOUTS")
    case True
    then show ?thesis by (rule a)
  next
    case False
    then have le: "totalTimeouts s + int k \<le> MAX_TIMEOUTS" by simp
    show ?thesis
      unfolding b[OF le] using that assms(2) le
      by (intro sendPacketsLoop_silence[OF assms(1)]) simp_all
  qed
  have d: "recvAcks seq acks tt (net\<lparr>inbox := map Datagram bs @ Timeout # rest'\<rparr>) =
            Inr (snd (foldl (ackStep seq) (acks, 0) bs),
                 fst (foldl (ackStep seq) (acks, 0) bs), 1, net\<lparr>inbox := rest'\<rparr>)"
    if "bs \<noteq> []"
    using that by (subst recvAcks_phase) (simp_all add: MAX_TIMEOUTS_def)
  from a b c d show ?thesis by blast
qed


theorem retry_budget_witness:
  "(0::int) \<noteq> numberOfPackets 1 \<and>
   sendsLeft (snet \<lparr>snet = \<lparr>inbox = replicate 2 Timeout @ [], sendsLeft = None, outbox = []\<rparr>,
                     totalTimeouts = 0, sfile = fopen_rb [], overruns = []\<rparr>) = None \<and>
   (0::int) \<le> MAX_TIMEOUTS \<and> (0::int) + int 2 \<le> MAX_TIMEOUTS \<and> [0 :: byte] \<noteq> [] \<and>
   sendPacketsLoop [] 1 0 initAcks 0
     \<lparr>snet = \<lparr>inbox = replicate 2 Timeout @ [], sendsLeft = None, outbox = []\<rparr>,
      totalTimeouts = 0, sfile = fopen_rb [], overruns = []\<rparr> = Inl ReceiverNotResponding \<and>
   recvAcks 0 initAcks 7 \<lparr>inbox = [Datagram 0, Timeout], sendsLeft = None, outbox = ([] :: dgram list)\<rparr> =
     Inr (1, initAcks[0 := True], 1, \<lparr>inbox = [], sendsLeft = None, outbox = []\<rparr>)"
proof -
  have n: "(0::int) \<noteq> numberOfPackets 1"
    by (simp add: numberOfPackets_def DATA_SIZE_def signed_divide_int_def signed_modulo_int_def)
  have st: "ackStep 0 (initAcks, 0) 0 = (initAcks[0 := True], 1)"
    by (simp add: ackStep_def Let_def char_to_int_def isPrevWindowAck_def packetNumber_def
          WINDOW_SIZE_def initAcks_def)
  from retry_budget [where totalAcks = 0 and bufSize = 1 and k = 2 and rest = "[]"
      and s = "\<lparr>snet = \<lparr>inbox = replicate 2 Timeout @ [], sendsLeft = None, outbox = []\<rparr>,
                 totalTimeouts = 0, sfile = fopen_rb [], overruns = []\<rparr>" and buf = "[]" and seq = 0
      and acks = initAcks and bs = "[0]" and tt = 7 and rest' = "[]"
      and net = "\<lparr>inbox = [], sendsLeft = None, outbox = ([] :: dgram list)\<rparr>", OF n]
  show ?thesis using n by (simp add: MAX_TIMEOUTS_def st)
qed

lemma concat_replicate_single: "concat (replicate k [x]) = replicate k x"
  by (induction k) simp_all

text \<open>
  A one-byte file, one hundred receive phases that time out with no ack, then the ack of the
  file's only packet: the sender does not abort. It has sent the packet 101 times and ends
  normally.
\<close>

theorem hundred_silent_rounds_counterexample:
  "sendFile (replicate 5000 0) [7]
     \<lparr>inbox = replicate 100 Timeout @ [Datagram 0], sendsLeft = None, outbox = []\<rparr> =
   Inr \<lparr>snet = \<lparr>inbox = [], sendsLeft = None,
                outbox = replicate 101 \<lparr>hdrSeq = 0, hdrEof = 1, body = [7]\<rparr>\<rparr>,
        totalTimeouts = 1,
        sfile = \<lparr>unread = [], eofIndicator = True\<rparr>, overruns = []\<rparr>"
proof -
  let ?buf = "7 # replicate 4999 (0::byte)"
  let ?f = "\<lparr>unread = [], eofIndicator = True\<rparr>"
  let ?p = "\<lparr>hdrSeq = 0, hdrEof = 1, body = [7]\<rparr>"
  let ?s1 = "\<lparr>snet = \<lparr>inbox = replicate 100 Timeout @ [Datagram 0], sendsLeft = None, outbox = []\<rparr>,
              totalTimeouts = 0, sfile = ?f, overruns = []\<rparr>"
  let ?s2 = "\<lparr>snet = \<lparr>inbox = [Datagram 0], sendsLeft = None, outbox = replicate 100 ?p\<rparr>,
              totalTimeouts = 100, sfile = ?f, overruns = []\<rparr>"
  let ?s3 = "\<lparr>snet = \<lparr>inbox = [], sendsLeft = None, outbox = replicate 101 ?p\<rparr>,
              totalTimeouts = 1, sfile = ?f, overruns = []\<rparr>"
  have n: "numberOfPackets 1 = 1"
    by (simp add: numberOfPackets_def DATA_SIZE_def signed_divide_int_def signed_modulo_int_def)
  have sw: "sweepPackets ?buf 1 0 True acks = (if acks ! 0 then [] else [?p])" for acks
    by (simp add: sweepPackets_def n makePacket_def calculatePacketSize_def DATA_SIZE_def
          HEADER_SIZE_def signed_modulo_int_def int_to_char_def)
  have so: "sweepOverruns 5000 1 acks = []" for acks
    by (simp add: sweepOverruns_def n copyOverruns_def packetCopy_def calculatePacketSize_def
          DATA_SIZE_def HEADER_SIZE_def PACKET_SIZE_def signed_modulo_int_def)
  have st: "ackStep 0 (initAcks, 0) 0 = (initAcks[0 := True], 1)"
    by (simp add: ackStep_def Let_def char_to_int_def isPrevWindowAck_def packetNumber_def
          WINDOW_SIZE_def initAcks_def)
  have i0: "\<not> initAcks ! 0" by (simp add: initAcks_def WINDOW_SIZE_def)
  have r1: "sendPacketsLoop ?buf 1 0 initAcks 0 ?s1 = sendPacketsLoop ?buf 1 0 initAcks 0 ?s2"
    by (subst sendPacketsLoop_timeouts[where k = 100 and rest = "[Datagram 0]"])
       (simp_all add: n MAX_TIMEOUTS_def feof_def sw so i0 concat_replicate_single)
  have ph: "recvAcks 0 initAcks 100
              (\<lparr>inbox = [], sendsLeft = None, outbox = replicate 101 ?p\<rparr>\<lparr>inbox := map Datagram [0] @ []\<rparr>) =
            Inr (1, initAcks[0 := True], 1, \<lparr>inbox = [], sendsLeft = None, outbox = replicate 101 ?p\<rparr>)"
    by (subst recvAcks_phase) (simp_all add: st MAX_TIMEOUTS_def)
  have "replicate (Suc 100) ?p = replicate 100 ?p @ [?p]"
    by (simp only: replicate_append_same replicate_Suc)
  moreover have "Suc 100 = 101" by simp
  ultimately have app: "replicate 100 ?p @ [?p] = replicate 101 ?p"
    by (simp only:)
  have r2: "sendPacketsLoop ?buf 1 0 initAcks 0 ?s2 = Inr ?s3"
    using ph
    by (subst sendPacketsLoop_round) (simp_all add: n feof_def sw so i0 app sendPacketsLoop.simps)
  have w1: "sendPackets ?buf 1 0 ?s1 = Inr ?s3"
    by (simp add: sendPackets_def r1 r2)
  have l2: "sendFileLoop ?buf 10 ?s3 = Inr ?s3"
    by (subst sendFileLoop.simps) (simp add: fread_def Let_def DATA_SIZE_def WINDOW_SIZE_def)
  have adv: "advance 0 = 10"
    by (simp add: advance_def MAX_START_SEQ_def MAX_TIMEOUTS_def WINDOW_SIZE_def)
  have rp: "replicate 5000 (0::byte) = 0 # replicate 4999 0"
    by (simp add: replicate_Suc [symmetric] del: replicate_Suc)
  show ?thesis
    unfolding sendFile_def
    by (subst sendFileLoop.simps)
       (simp add: fread_def fopen_rb_def Let_def DATA_SIZE_def WINDOW_SIZE_def rp w1 l2 adv)
qed

section \<open>The receiver's loop body\<close>

lemma recvPacketsLoop_done:
  "totalPacketsReceived w = totalPacketsExpected w \<Longrightarrow> recvPacketsLoop seq w net = Returned (w, net)"
  by (simp add: recvPacketsLoop.simps)

lemma recvPacketsLoop_Datagram:
  assumes "totalPacketsReceived w \<noteq> totalPacketsExpected w" "sendsLeft net = None"
  shows "recvPacketsLoop seq w (net\<lparr>inbox := Datagram p # rest\<rparr>) =
         recvPacketsLoop seq (acceptPacket seq w p)
           (net\<lparr>inbox := rest, outbox := outbox net @ [ackPacket p]\<rparr>)"
  using assms
  by (subst recvPacketsLoop.simps) (simp add: recvfrom_blocking_def sendto_def Let_def)

lemma recvPacketsLoop_Nil:
  assumes "totalPacketsReceived w \<noteq> totalPacketsExpected w"
  shows "recvPacketsLoop seq w (net\<lparr>inbox := []\<rparr>) = Blocked (w, net\<lparr>inbox := []\<rparr>)"
  using assms
  by (subst recvPacketsLoop.simps) (simp add: recvfrom_blocking_def)

lemma ackPacket_echo: "ackPacket p = hdrSeq p"
  by (simp add: ackPacket_def int_to_char_char_to_int)

lemma acceptPacket_stale:
  "isPrevWindowAck seq (char_to_int (hdrSeq p)) \<Longrightarrow> acceptPacket seq w p = w"
  by (simp add: acceptPacket_def Let_def)

lemma acceptPacket_flags: "packetsReceived (acceptPacket seq w p) = packetsReceived w"
  by (simp add: acceptPacket_def Let_def)

lemma acceptPacket_new:
  assumes "\<not> isPrevWindowAck seq (char_to_int (hdrSeq p))"
    "\<not> packetsReceived w ! nat (packetNumber (char_to_int (hdrSeq p)))"
  shows "totalPacketsReceived (acceptPacket seq w p) = totalPacketsReceived w + 1"
    and "bytesReceived (acceptPacket seq w p) = bytesReceived w + (received p - HEADER_SIZE)"
    and "hdrEof p \<noteq> 0 \<Longrightarrow> eofOut (acceptPacket seq w p) \<and>
           totalPacketsExpected (acceptPacket seq w p) = packetNumber (char_to_int (hdrSeq p)) + 1"
    and "hdrEof p = 0 \<Longrightarrow> eofOut (acceptPacket seq w p) = eofOut w \<and>
           totalPacketsExpected (acceptPacket seq w p) = totalPacketsExpected w"
    and "bufOut (acceptPacket seq w p) =
           memcpy (bufOut w) (nat (packetNumber (char_to_int (hdrSeq p)) * DATA_SIZE))
             (take (nat (received p - HEADER_SIZE)) (body p))"
  using assms by (simp_all add: acceptPacket_def Let_def)

text \<open>
  The receiver's copy \<^verbatim>\<open>memcpy(bufOut + packetNumber * DATA_SIZE, packet + HEADER_SIZE,
  received - HEADER_SIZE)\<close> stays inside the 5000 bytes of \<open>buf\<close>: the slot of an in-window
  number is at most 9 and \<open>recvfrom\<close> stores at most \<open>PACKET_SIZE\<close> bytes.
\<close>

lemma receiver_copy_in_bounds:
  assumes "0 \<le> seq" "\<not> isPrevWindowAck seq (char_to_int (hdrSeq p))"
  shows "0 \<le> packetNumber (char_to_int (hdrSeq p)) * DATA_SIZE \<and>
         0 \<le> received p - HEADER_SIZE \<and>
         packetNumber (char_to_int (hdrSeq p)) * DATA_SIZE + (received p - HEADER_SIZE)
           \<le> DATA_SIZE * WINDOW_SIZE"
  using in_window_slot[OF assms]
  unfolding received_def PACKET_SIZE_def HEADER_SIZE_def DATA_SIZE_def WINDOW_SIZE_def
  by (simp add: min_def)

lemma memcpy_length:
  "off + length src \<le> length dst \<Longrightarrow> length (memcpy dst off src) = length dst"
  by (simp add: memcpy_def)

section \<open>Duplicates at the receiver\<close>

text \<open>
  C4, at a failing input. The receiver is in the window of base 0 and the network delivers the
  same 500-byte data packet, sequence number 0, twice. Each delivery is answered by one ack
  that echoes the number, but the second delivery is taken for new: the received count goes
  from 1 to 2 and the byte total from 500 to 1000, because \<open>packetsReceived[0]\<close> is still
  false.
\<close>

theorem duplicate_packet_counted_again:
  "ackPacket \<lparr>hdrSeq = 0, hdrEof = 0, body = replicate 500 1\<rparr> = 0 \<and>
   totalPacketsReceived
     (acceptPacket 0 (initWindow (replicate 5000 0) False)
        \<lparr>hdrSeq = 0, hdrEof = 0, body = replicate 500 1\<rparr>) = 1 \<and>
   bytesReceived
     (acceptPacket 0 (initWindow (replicate 5000 0) False)
        \<lparr>hdrSeq = 0, hdrEof = 0, body = replicate 500 1\<rparr>) = 500 \<and>
   totalPacketsReceived
     (acceptPacket 0
        (acceptPacket 0 (initWindow (replicate 5000 0) False)
           \<lparr>hdrSeq = 0, hdrEof = 0, body = replicate 500 1\<rparr>)
        \<lparr>hdrSeq = 0, hdrEof = 0, body = replicate 500 1\<rparr>) = 2 \<and>
   bytesReceived
     (acceptPacket 0
        (acceptPacket 0 (initWindow (replicate 5000 0) False)
           \<lparr>hdrSeq = 0, hdrEof = 0, body = replicate 500 1\<rparr>)
        \<lparr>hdrSeq = 0, hdrEof = 0, body = replicate 500 1\<rparr>) = 1000"
proof -
  let ?p = "\<lparr>hdrSeq = 0, hdrEof = 0, body = replicate 500 1\<rparr>"
  let ?w = "initWindow (replicate 5000 0) False"
  have v: "\<not> isPrevWindowAck 0 (char_to_int (hdrSeq ?p))" "packetNumber (char_to_int (hdrSeq ?p)) = 0"
    by (simp_all add: isPrevWindowAck_def Let_def char_to_int_def packetNumber_def WINDOW_SIZE_def)
  have r: "received ?p - HEADER_SIZE = 500"
    by (simp add: received_def PACKET_SIZE_def HEADER_SIZE_def DATA_SIZE_def)
  have f: "\<not> packetsReceived ?w ! nat 0"
    by (simp add: initWindow_def initPacketsReceived_def WINDOW_SIZE_def)
  have f': "\<not> packetsReceived (acceptPacket 0 ?w ?p) ! nat 0"
    using f by (simp add: acceptPacket_flags)
  have a: "totalPacketsReceived (acceptPacket 0 ?w ?p) = 1" "bytesReceived (acceptPacket 0 ?w ?p) = 500"
    using acceptPacket_new(1,2)[of 0 ?p ?w] v f r by (simp_all add: initWindow_def)
  have b: "totalPacketsReceived (acceptPacket 0 (acceptPacket 0 ?w ?p) ?p) = 2"
    "bytesReceived (acceptPacket 0 (acceptPacket 0 ?w ?p) ?p) = 1000"
    using acceptPacket_new(1,2)[of 0 ?p "acceptPacket 0 ?w ?p"] v f' r a by simp_all
  have e: "ackPacket ?p = 0" by (simp add: ackPacket_echo)
  from a b e show ?thesis by (simp only:)
qed


text \<open>
  C5, at a failing input. A final window of three packets (500, 500 and 1 bytes, the last one
  flagged) on base 0; the network delivers packet 0 twice and loses packet 1. The flagged
  packet, slot 2, sets \<open>eof\<close> and the expected count to 3, but the loop returns at once:
  the duplicate has been counted, so the count is 3 with only slots 0 and 2 received, and the
  value returned is 1001 with 501 payload bytes assembled. Slot 1 of the buffer still holds
  what it held before.
\<close>

theorem window_returns_with_slot_missing:
  "recvPackets (replicate 5000 0) False 0
     \<lparr>inbox = [Datagram \<lparr>hdrSeq = 0, hdrEof = 0, body = replicate 500 1\<rparr>,
               Datagram \<lparr>hdrSeq = 0, hdrEof = 0, body = replicate 500 1\<rparr>,
               Datagram \<lparr>hdrSeq = 2, hdrEof = 1, body = [3]\<rparr>],
      sendsLeft = None, outbox = []\<rparr> =
   Returned
     (\<lparr>totalPacketsExpected = 3, packetsReceived = replicate 10 False,
       totalPacketsReceived = 3, bytesReceived = 1001,
       bufOut = replicate 500 1 @ replicate 500 0 @ [3] @ replicate 3999 0,
       eofOut = True\<rparr>,
      \<lparr>inbox = [], sendsLeft = None, outbox = [0, 0, 2]\<rparr>)"
proof -
  let ?p0 = "\<lparr>hdrSeq = 0, hdrEof = 0, body = replicate 500 1\<rparr>"
  let ?p2 = "\<lparr>hdrSeq = 2, hdrEof = 1, body = [3]\<rparr>"
  let ?w0 = "\<lparr>totalPacketsExpected = 10, packetsReceived = replicate 10 False,
       totalPacketsReceived = 0, bytesReceived = 0,
       bufOut = replicate 5000 0, eofOut = False\<rparr>"
  let ?w1 = "\<lparr>totalPacketsExpected = 10, packetsReceived = replicate 10 False,
       totalPacketsReceived = 1, bytesReceived = 500,
       bufOut = replicate 500 1 @ replicate 4500 0, eofOut = False\<rparr>"
  let ?w2 = "\<lparr>totalPacketsExpected = 10, packetsReceived = replicate 10 False,
       totalPacketsReceived = 2, bytesReceived = 1000,
       bufOut = replicate 500 1 @ replicate 4500 0, eofOut = False\<rparr>"
  let ?w3 = "\<lparr>totalPacketsExpected = 3, packetsReceived = replicate 10 False,
       totalPacketsReceived = 3, bytesReceived = 1001,
       bufOut = replicate 500 1 @ replicate 500 0 @ [3] @ replicate 3999 0, eofOut = True\<rparr>"
  let ?n = "\<lparr>inbox = [], sendsLeft = None, outbox = ([] :: byte list)\<rparr>"
  have r0: "received ?p0 - HEADER_SIZE = 500" and r2: "received ?p2 - HEADER_SIZE = 1"
    by (simp_all add: received_def PACKET_SIZE_def HEADER_SIZE_def DATA_SIZE_def)
  have w0: "initWindow (replicate 5000 0) False = ?w0"
    by (simp add: initWindow_def initPacketsReceived_def WINDOW_SIZE_def)
  have a1: "acceptPacket 0 ?w0 ?p0 = ?w1"
    by (simp add: acceptPacket_def Let_def r0 isPrevWindowAck_def char_to_int_def
          packetNumber_def WINDOW_SIZE_def memcpy_def DATA_SIZE_def)
  have a2: "acceptPacket 0 ?w1 ?p0 = ?w2"
    by (simp add: acceptPacket_def Let_def r0 isPrevWindowAck_def char_to_int_def
          packetNumber_def WINDOW_SIZE_def memcpy_def DATA_SIZE_def)
  have a3: "acceptPacket 0 ?w2 ?p2 = ?w3"
    by (simp add: acceptPacket_def Let_def r2 isPrevWindowAck_def char_to_int_def
          packetNumber_def WINDOW_SIZE_def memcpy_def DATA_SIZE_def signed_modulo_int_def)
  have "recvPackets (replicate 5000 0) False 0 (?n\<lparr>inbox := [Datagram ?p0, Datagram ?p0, Datagram ?p2]\<rparr>) =
        recvPacketsLoop 0 ?w1 (?n\<lparr>inbox := [Datagram ?p0, Datagram ?p2], outbox := [0]\<rparr>)"
    unfolding recvPackets_def w0
    by (subst recvPacketsLoop_Datagram) (simp_all add: a1 ackPacket_echo)
  also have "\<dots> = recvPacketsLoop 0 ?w2 (?n\<lparr>inbox := [Datagram ?p2], outbox := [0, 0]\<rparr>)"
    using recvPacketsLoop_Datagram[of ?w1 "?n\<lparr>outbox := [0]\<rparr>" 0 ?p0 "[Datagram ?p2]"]
    by (simp add: a2 ackPacket_echo)
  also have "\<dots> = recvPacketsLoop 0 ?w3 (?n\<lparr>inbox := [], outbox := [0, 0, 2]\<rparr>)"
    using recvPacketsLoop_Datagram[of ?w2 "?n\<lparr>outbox := [0, 0]\<rparr>" 0 ?p2 "[]"]
    by (simp add: a3 ackPacket_echo)
  also have "\<dots> = Returned (?w3, ?n\<lparr>inbox := [], outbox := [0, 0, 2]\<rparr>)"
    by (rule recvPacketsLoop_done) simp
  finally show ?thesis by simp
qed

section \<open>The sender's packet buffer\<close>

text \<open>
  C10, at a failing input. A file of 500 bytes is one window of one packet; its size is
  \<open>PACKET_SIZE\<close> = 502, and \<open>memcpy\<close> copies that many bytes, not the 500 of the payload,
  to offset 2 of the 502-byte array \<open>packet\<close>: it writes offsets 2 to 503, two bytes past the
  end.
\<close>

theorem packet_copy_past_buffer_end:
  "numberOfPackets 500 = 1 \<and> calculatePacketSize 500 True = 502 \<and> PACKET_SIZE = 502 \<and>
   packetCopy (calculatePacketSize 500 True) = (2, 504) \<and>
   snd (packetCopy (calculatePacketSize 500 True)) > PACKET_SIZE"
  by (simp add: numberOfPackets_def calculatePacketSize_def packetCopy_def PACKET_SIZE_def
        HEADER_SIZE_def DATA_SIZE_def signed_divide_int_def signed_modulo_int_def)

text \<open>The same holds for every packet that is not the last of its window.\<close>

lemma packet_copy_full_packet:
  "packetCopy (calculatePacketSize bufSize False) = (HEADER_SIZE, PACKET_SIZE + 2)"
  by (simp add: calculatePacketSize_def packetCopy_def PACKET_SIZE_def HEADER_SIZE_def)

section \<open>Counting the packets of a chunk\<close>

lemma upto_upt: "[0..int n - 1] = map int [0..<n]"
proof (induction n)
  case 0
  show ?case by simp
next
  case (Suc n)
  have "[0..int (Suc n) - 1] = [0..int n - 1] @ [int n]"
    using upto_rec2[of 0 "int n"] by simp
  with Suc show ?case by simp
qed

lemma div500_shift: "((q::nat) * 500 + r + 499) div 500 = q + (r + 499) div 500"
  by (simp add: add.assoc)

lemma div500_one: "r < 500 \<Longrightarrow> r \<noteq> 0 \<Longrightarrow> ((r::nat) + 499) div 500 = 1"
  by (intro div_nat_eqI) simp_all

lemma ceil500:
  fixes n :: nat
  shows "(n + 499) div 500 = n div 500 + (if n mod 500 = 0 then 0 else 1)"
proof -
  obtain q r where n: "n = q * 500 + r" and r: "r < 500"
    by (metis mod_div_decomp mod_less_divisor zero_less_numeral)
  have d: "(q * 500 + r) div 500 = q" "(q * 500 + r) mod 500 = r" using r by simp_all
  show ?thesis
  proof (cases "r = 0")
    case True
    then show ?thesis unfolding n d by (simp only: div500_shift) simp
  next
    case False
    with r show ?thesis unfolding n d by (simp only: div500_shift div500_one) simp
  qed
qed

lemma packetCount_split:
  "packetCount chunk = length chunk div 500 + (if length chunk mod 500 = 0 then 0 else 1)"
  unfolding packetCount_def by (rule ceil500)


lemma numberOfPackets_packetCount:
  "numberOfPackets (int (length chunk)) = int (packetCount chunk)"
proof -
  have "int (length chunk) sdiv 500 = int (length chunk) div 500"
    by (rule sdiv_nonneg) simp_all
  then have d: "int (length chunk) sdiv 500 = int (length chunk div 500)"
    by (simp only: zdiv_int) simp
  have "int (length chunk) smod 500 = int (length chunk) mod 500"
    by (rule smod_nonneg) simp_all
  then have m: "int (length chunk) smod 500 = int (length chunk mod 500)"
    by (simp only: zmod_int) simp
  show ?thesis
    unfolding numberOfPackets_def DATA_SIZE_def Let_def packetCount_split d m by simp
qed

lemma ceil500_bounds:
  fixes n :: nat
  assumes "0 < n"
  shows "0 < (n + 499) div 500" "500 * ((n + 499) div 500 - 1) < n" "n \<le> 500 * ((n + 499) div 500)"
    "n \<le> 5000 \<Longrightarrow> (n + 499) div 500 \<le> 10"
proof -
  obtain q r where n: "n = q * 500 + r" and r: "r < 500"
    by (metis mod_div_decomp mod_less_divisor zero_less_numeral)
  have d: "(q * 500 + r) div 500 = q" "(q * 500 + r) mod 500 = r" using r by simp_all
  have c: "(n + 499) div 500 = q + (if r = 0 then 0 else 1)"
    unfolding ceil500 unfolding n d ..
  show "0 < (n + 499) div 500" unfolding c using assms n by (cases "r = 0") simp_all
  show "500 * ((n + 499) div 500 - 1) < n" unfolding c using assms n r by (cases "r = 0") simp_all
  show "n \<le> 500 * ((n + 499) div 500)" unfolding c using n r by (cases "r = 0") simp_all
  show "(n + 499) div 500 \<le> 10" if "n \<le> 5000" unfolding c using that n r by (cases "r = 0") simp_all
qed

lemma packetCount_bounds:
  assumes "chunk \<noteq> []"
  shows "0 < packetCount chunk" "500 * (packetCount chunk - 1) < length chunk"
    "length chunk \<le> 500 * packetCount chunk"
    "length chunk \<le> 5000 \<Longrightarrow> packetCount chunk \<le> 10"
proof -
  from assms have pos: "0 < length chunk" by simp
  show "0 < packetCount chunk" unfolding packetCount_def by (rule ceil500_bounds(1)[OF pos])
  show "500 * (packetCount chunk - 1) < length chunk"
    unfolding packetCount_def by (rule ceil500_bounds(2)[OF pos])
  show "length chunk \<le> 500 * packetCount chunk"
    unfolding packetCount_def by (rule ceil500_bounds(3)[OF pos])
  show "packetCount chunk \<le> 10" if "length chunk \<le> 5000"
    unfolding packetCount_def by (rule ceil500_bounds(4)[OF pos that])
qed

section \<open>One window at the sender\<close>

lemma window_slot:
  assumes "validBase b" "i < 10"
  shows "\<not> isPrevWindowAck b (b + int i)" "packetNumber (b + int i) = int i"
    "char_to_int (int_to_char (b + int i)) = b + int i"
proof -
  from assms(1) have b: "0 \<le> b" "b \<le> 100" "b mod 10 = 0"
    by (auto simp: validBase_def smod_nonneg)
  from assms(2) show "\<not> isPrevWindowAck b (b + int i)"
    by (simp add: isPrevWindowAck_def Let_def WINDOW_SIZE_def)
  from b assms(2) have "(b + int i) mod 10 = int i" by (simp add: mod_add_left_eq [symmetric])
  with b show "packetNumber (b + int i) = int i" by (simp add: packetNumber_mod)
  from b assms(2) have "(b + int i + 128) mod 256 - 128 = b + int i" by simp
  then show "char_to_int (int_to_char (b + int i)) = b + int i"
    by (simp only: char_to_int_int_to_char)
qed

lemma lastPayload:
  assumes "chunk \<noteq> []"
  shows "nat (calculatePacketSize (int (length chunk)) True - HEADER_SIZE) =
         length chunk - 500 * (packetCount chunk - 1)"
proof -
  obtain q r where n: "length chunk = q * 500 + r" and r: "r < 500"
    by (metis mod_div_decomp mod_less_divisor zero_less_numeral)
  have d: "(q * 500 + r) div 500 = q" "(q * 500 + r) mod 500 = r" using r by simp_all
  have c: "packetCount chunk = q + (if r = 0 then 0 else 1)"
    unfolding packetCount_split unfolding n d ..
  have "int (length chunk) smod 500 = int (length chunk) mod 500"
    by (rule smod_nonneg) simp_all
  also have "\<dots> = int (length chunk mod 500)" by (simp add: zmod_int)
  also have "length chunk mod 500 = r" unfolding n by (rule d(2))
  finally have m: "int (length chunk) smod 500 = int r" .
  from assms have "0 < q * 500 + r" unfolding n[symmetric] by simp
  then show ?thesis
    unfolding calculatePacketSize_def DATA_SIZE_def PACKET_SIZE_def HEADER_SIZE_def Let_def m c
    unfolding n by (cases "r = 0") auto
qed

lemma makePacket_window:
  assumes "chunk \<noteq> []" "i < packetCount chunk"
  shows "makePacket (chunk @ g) (int i * DATA_SIZE)
           (calculatePacketSize (int (length chunk)) (int i + 1 = int (packetCount chunk)))
           seq (int i + 1 = int (packetCount chunk)) e (int i) =
         \<lparr>hdrSeq = int_to_char (seq + int i),
          hdrEof = (if Suc i = packetCount chunk \<and> e then 1 else 0),
          body = take 500 (drop (500 * i) chunk)\<rparr>"
proof (cases "Suc i = packetCount chunk")
  case True
  then have i: "i = packetCount chunk - 1" by simp
  have l: "(int i + 1 = int (packetCount chunk)) = True" using True by simp
  have le: "500 * i \<le> length chunk" using packetCount_bounds(2)[OF assms(1)] i by simp
  have sz: "length chunk - 500 * i \<le> 500" using packetCount_bounds(3)[OF assms(1)] True by simp
  have idx: "nat (int i * DATA_SIZE) = 500 * i" by (simp add: DATA_SIZE_def nat_mult_distrib)
  have len: "nat (calculatePacketSize (int (length chunk)) True - HEADER_SIZE) = length chunk - 500 * i"
    using lastPayload[OF assms(1)] i by simp
  have t1: "take (length chunk - 500 * i) (drop (500 * i) (chunk @ g)) = drop (500 * i) chunk"
    using le by simp
  have t2: "take 500 (drop (500 * i) chunk) = drop (500 * i) chunk" using sz by simp
  show ?thesis
    unfolding makePacket_def l idx len t1 t2 using True by simp
next
  case False
  with assms(2) have lt: "Suc i < packetCount chunk" by simp
  then have "500 * Suc i \<le> 500 * (packetCount chunk - 1)" by simp
  with packetCount_bounds(2)[OF assms(1)] have le: "500 * i + 500 \<le> length chunk" by simp
  then have t: "take 500 (drop (500 * i) (chunk @ g)) = take 500 (drop (500 * i) chunk)" by simp
  have l: "(int i + 1 = int (packetCount chunk)) = False" using False by auto
  have idx: "nat (int i * DATA_SIZE) = 500 * i" by (simp add: DATA_SIZE_def nat_mult_distrib)
  have len: "nat (calculatePacketSize (int (length chunk)) False - HEADER_SIZE) = 500"
    by (simp add: calculatePacketSize_def PACKET_SIZE_def HEADER_SIZE_def DATA_SIZE_def)
  show ?thesis
    unfolding makePacket_def l idx len t using False by simp
qed

lemma sweepPackets_window:
  assumes "chunk \<noteq> []" "length chunk \<le> 5000"
  shows "sweepPackets (chunk @ g) (int (length chunk)) seq e initAcks = windowPackets chunk seq e"
proof -
  have pc: "packetCount chunk \<le> 10" using packetCount_bounds(4)[OF assms] .
  have f: "filter (\<lambda>i. \<not> initAcks ! nat i) (map int [0..<packetCount chunk]) = map int [0..<packetCount chunk]"
    using pc by (auto simp: filter_id_conv initAcks_def WINDOW_SIZE_def)
  show ?thesis
    unfolding sweepPackets_def numberOfPackets_packetCount upto_upt f windowPackets_def
    by (simp add: makePacket_window[OF assms(1)])
qed


lemma mark_next:
  assumes "j < 10"
  shows "(replicate j True @ replicate (10 - j) False)[j := True] =
         replicate (Suc j) True @ replicate (10 - Suc j) False"
proof -
  from assms have "replicate (10 - j) False = False # replicate (10 - Suc j) False"
    by (metis Suc_diff_Suc replicate_Suc)
  then show ?thesis by (simp add: list_update_append replicate_append_same)
qed

lemma foldl_ackStep_window:
  assumes "validBase seq" "j \<le> 10"
  shows "foldl (ackStep seq) (initAcks, 0) (map (\<lambda>i. int_to_char (seq + int i)) [0..<j]) =
         (replicate j True @ replicate (10 - j) False, int j)"
  using assms(2)
proof (induction j)
  case 0
  show ?case by (simp add: initAcks_def WINDOW_SIZE_def)
next
  case (Suc j)
  then have j: "j < 10" by simp
  have nth: "\<not> (replicate j True @ replicate (10 - j) False) ! j"
    using j by (simp add: nth_append)
  have "ackStep seq (replicate j True @ replicate (10 - j) False, int j) (int_to_char (seq + int j)) =
        (replicate (Suc j) True @ replicate (10 - Suc j) False, int (Suc j))"
    unfolding ackStep_def Let_def fst_conv snd_conv window_slot(3)[OF assms(1) j]
      window_slot(2)[OF assms(1) j]
    using window_slot(1)[OF assms(1) j] nth mark_next[OF j] by simp
  with Suc.IH j show ?case by simp
qed

lemma sendPackets_window:
  assumes "chunk \<noteq> []" "length chunk \<le> 5000" "validBase seq"
    "sendsLeft (snet s) = None"
    "inbox (snet s) = map Datagram (windowAcks chunk seq) @ rest" "rest = [] \<or> hd rest = Timeout"
  shows "sendPackets (chunk @ g) (int (length chunk)) seq s =
         Inr (s\<lparr>snet := (snet s)\<lparr>inbox := tl rest,
                   outbox := outbox (snet s) @ windowPackets chunk seq (feof (sfile s))\<rparr>,
                totalTimeouts := 1,
                overruns := overruns s @
                  sweepOverruns (int (length (chunk @ g))) (int (length chunk)) initAcks\<rparr>)"
proof -
  let ?n = "int (length chunk)"
  let ?pc = "packetCount chunk"
  let ?acks = "replicate ?pc True @ replicate (10 - ?pc) False"
  let ?net1 = "(snet s)\<lparr>outbox := outbox (snet s) @ windowPackets chunk seq (feof (sfile s))\<rparr>"
  have pc: "0 < ?pc" "?pc \<le> 10"
    using packetCount_bounds(1)[OF assms(1)] packetCount_bounds(4)[OF assms(1,2)] .
  have ne: "(0::int) \<noteq> numberOfPackets ?n" using pc by (simp add: numberOfPackets_packetCount)
  have wa: "windowAcks chunk seq \<noteq> []" using pc by (simp add: windowAcks_def)
  have fo: "foldl (ackStep seq) (initAcks, 0) (windowAcks chunk seq) = (?acks, int ?pc)"
    unfolding windowAcks_def by (rule foldl_ackStep_window[OF assms(3) pc(2)])
  have net1: "?net1 = ?net1\<lparr>inbox := map Datagram (windowAcks chunk seq) @ rest\<rparr>"
    using assms(5) by simp
  have "recvAcks seq initAcks (totalTimeouts s) ?net1 =
        recvAcks seq initAcks (totalTimeouts s)
          (?net1\<lparr>inbox := map Datagram (windowAcks chunk seq) @ rest\<rparr>)"
    using net1 by simp
  also have "\<dots> = Inr (int ?pc, ?acks, 1, ?net1\<lparr>inbox := tl rest\<rparr>)"
    unfolding recvAcks_phase[OF assms(6)] fo using wa by (simp add: MAX_TIMEOUTS_def)
  finally have ph: "recvAcks seq initAcks (totalTimeouts s) ?net1 =
        Inr (int ?pc, ?acks, 1, ?net1\<lparr>inbox := tl rest\<rparr>)" .
  have "sendPackets (chunk @ g) ?n seq s =
        sendPacketsLoop (chunk @ g) ?n seq ?acks (numberOfPackets ?n)
          (s\<lparr>snet := ?net1\<lparr>inbox := tl rest\<rparr>, totalTimeouts := 1,
             overruns := overruns s @
               sweepOverruns (int (length (chunk @ g))) (int (length chunk)) initAcks\<rparr>)"
    unfolding sendPackets_def
    by (subst sendPacketsLoop_round[OF ne assms(4)])
       (simp add: sweepPackets_window[OF assms(1,2)] ph numberOfPackets_packetCount)
  then show ?thesis by (simp add: sendPacketsLoop_done)
qed

section \<open>A whole file at the sender\<close>

termination allPackets
  by (relation "measure (\<lambda>(seq, P). length P)") auto

termination timelyAcks
  by (relation "measure (\<lambda>(seq, P). length P)") auto

termination allOverruns
  by (relation "measure length") auto

declare allPackets.simps [simp del] timelyAcks.simps [simp del] allOverruns.simps [simp del]

lemma sendFileLoop_step:
  assumes "fread 5000 (sfile s) = (chunk, f')"
  shows "sendFileLoop buf seq s =
         (if chunk = [] then Inr (s\<lparr>sfile := f'\<rparr>)
          else case sendPackets (chunk @ drop (length chunk) buf) (int (length chunk)) seq
                      (s\<lparr>sfile := f'\<rparr>) of
                 Inl e \<Rightarrow> Inl e
               | Inr s'' \<Rightarrow> sendFileLoop (chunk @ drop (length chunk) buf) (advance seq) s'')"
  using assms
  by (subst sendFileLoop.simps) (simp add: Let_def DATA_SIZE_def WINDOW_SIZE_def split: sum.splits)

lemma sendFileLoop_timely:
  assumes "length buf = 5000" "validBase seq" "sendsLeft (snet s) = None"
    "inbox (snet s) = timelyAcks seq (unread (sfile s)) @ rest"
    "\<not> eofIndicator (sfile s) \<or> unread (sfile s) = []"
  shows "sendFileLoop buf seq s =
         Inr (s\<lparr>snet := (snet s)\<lparr>inbox := rest,
                   outbox := outbox (snet s) @ allPackets seq (unread (sfile s))\<rparr>,
                totalTimeouts := (if unread (sfile s) = [] then totalTimeouts s else 1),
                sfile := \<lparr>unread = [], eofIndicator = True\<rparr>,
                overruns := overruns s @ allOverruns (unread (sfile s))\<rparr>)"
  using assms
proof (induction "length (unread (sfile s))" arbitrary: s seq buf rule: less_induct)
  case less
  let ?P = "unread (sfile s)"
  show ?case
  proof (cases "?P = []")
    case True
    have rd: "fread 5000 (sfile s) = ([], \<lparr>unread = [], eofIndicator = True\<rparr>)"
      using True by (simp add: fread_def)
    have ib: "inbox (snet s) = rest" using less.prems(4) True by (simp add: timelyAcks.simps)
    then have e: "(snet s)\<lparr>inbox := rest\<rparr> = snet s" by auto
    show ?thesis
      unfolding sendFileLoop_step[OF rd] using True e
      by (simp add: allPackets.simps allOverruns.simps)
  next
    case False
    let ?chunk = "take 5000 ?P"
    let ?g = "drop (length ?chunk) buf"
    let ?f' = "\<lparr>unread = drop 5000 ?P, eofIndicator = (length ?P < 5000)\<rparr>"
    let ?s' = "s\<lparr>sfile := ?f'\<rparr>"
    let ?rest' = "Timeout # timelyAcks (advance seq) (drop 5000 ?P) @ rest"
    let ?s'' = "?s'\<lparr>snet := (snet ?s')\<lparr>inbox := tl ?rest',
                   outbox := outbox (snet ?s') @ windowPackets ?chunk seq (feof (sfile ?s'))\<rparr>,
                totalTimeouts := 1,
                overruns := overruns ?s' @
                  sweepOverruns 5000 (int (length ?chunk)) initAcks\<rparr>"
    from False less.prems(5) have ne: "\<not> eofIndicator (sfile s)" by simp
    have rd: "fread 5000 (sfile s) = (?chunk, ?f')"
      using ne by (simp add: fread_def)
    have c: "?chunk \<noteq> []" "length ?chunk \<le> 5000" using False by simp_all
    have ib: "inbox (snet ?s') = map Datagram (windowAcks ?chunk seq) @ ?rest'"
      using less.prems(4) False by (subst (asm) timelyAcks.simps) simp
    have lb: "length (?chunk @ ?g) = 5000" using less.prems(1) by simp
    have sl: "sendsLeft (snet ?s') = None" using less.prems(3) by simp
    have tr: "tl ?rest' = tl ?rest'" "?rest' = [] \<or> hd ?rest' = Timeout" by simp_all
    have w: "sendPackets (?chunk @ ?g) (int (length ?chunk)) seq ?s' = Inr ?s''"
      using sendPackets_window[OF c less.prems(2) sl ib tr(2), of ?g] by (simp only: lb of_nat_numeral)
    have "sendFileLoop (?chunk @ ?g) (advance seq) ?s'' =
         Inr (?s''\<lparr>snet := (snet ?s'')\<lparr>inbox := rest,
                   outbox := outbox (snet ?s'') @ allPackets (advance seq) (unread (sfile ?s''))\<rparr>,
                totalTimeouts := (if unread (sfile ?s'') = [] then totalTimeouts ?s'' else 1),
                sfile := \<lparr>unread = [], eofIndicator = True\<rparr>,
                overruns := overruns ?s'' @ allOverruns (unread (sfile ?s''))\<rparr>)"
      using False less.prems(3)
      by (intro less.hyps lb validBase_advance[OF less.prems(2)]) auto
    then have r: "sendFileLoop (?chunk @ ?g) (advance seq) ?s'' =
         Inr (s\<lparr>snet := (snet s)\<lparr>inbox := rest,
                   outbox := outbox (snet s) @ allPackets seq ?P\<rparr>,
                totalTimeouts := 1,
                sfile := \<lparr>unread = [], eofIndicator = True\<rparr>,
                overruns := overruns s @ allOverruns ?P\<rparr>)"
      using False lb
      by (simp add: allPackets.simps[of seq ?P] allOverruns.simps[of ?P] feof_def sender_order)
    show ?thesis
      unfolding sendFileLoop_step[OF rd] w using c(1) r False by simp
  qed
qed

section \<open>One window at the receiver\<close>

lemma recvPacketsLoop_fold:
  assumes "sendsLeft net = None"
  shows "(\<forall>k < length ps. totalPacketsReceived (foldl (acceptPacket seq) w (take k ps)) \<noteq>
                         totalPacketsExpected (foldl (acceptPacket seq) w (take k ps))) \<Longrightarrow>
         recvPacketsLoop seq w (net\<lparr>inbox := map Datagram ps @ rest\<rparr>) =
         recvPacketsLoop seq (foldl (acceptPacket seq) w ps)
           (net\<lparr>inbox := rest, outbox := outbox net @ map ackPacket ps\<rparr>)"
  using assms
proof (induction ps arbitrary: w net)
  case Nil
  show ?case by simp
next
  case (Cons p ps)
  from Cons.prems(1) have "totalPacketsReceived (foldl (acceptPacket seq) w (take 0 (p # ps))) \<noteq>
                         totalPacketsExpected (foldl (acceptPacket seq) w (take 0 (p # ps)))"
    by blast
  then have ne: "totalPacketsReceived w \<noteq> totalPacketsExpected w" by simp
  have nx: "\<forall>k < length ps. totalPacketsReceived (foldl (acceptPacket seq) (acceptPacket seq w p) (take k ps)) \<noteq>
                         totalPacketsExpected (foldl (acceptPacket seq) (acceptPacket seq w p) (take k ps))"
  proof (intro allI impI)
    fix k assume "k < length ps"
    then have "Suc k < length (p # ps)" by simp
    with Cons.prems(1) have "totalPacketsReceived (foldl (acceptPacket seq) w (take (Suc k) (p # ps))) \<noteq>
                         totalPacketsExpected (foldl (acceptPacket seq) w (take (Suc k) (p # ps)))"
      by blast
    then show "totalPacketsReceived (foldl (acceptPacket seq) (acceptPacket seq w p) (take k ps)) \<noteq>
                         totalPacketsExpected (foldl (acceptPacket seq) (acceptPacket seq w p) (take k ps))"
      by simp
  qed
  let ?net' = "net\<lparr>outbox := outbox net @ [ackPacket p]\<rparr>"
  have sl: "sendsLeft ?net' = None" using Cons.prems(2) by simp
  have eq: "net\<lparr>inbox := map Datagram ps @ rest, outbox := outbox net @ [ackPacket p]\<rparr> =
            ?net'\<lparr>inbox := map Datagram ps @ rest\<rparr>" by simp
  have "recvPacketsLoop seq w (net\<lparr>inbox := map Datagram (p # ps) @ rest\<rparr>) =
        recvPacketsLoop seq w (net\<lparr>inbox := Datagram p # map Datagram ps @ rest\<rparr>)"
    by simp
  also have "\<dots> = recvPacketsLoop seq (acceptPacket seq w p) (?net'\<lparr>inbox := map Datagram ps @ rest\<rparr>)"
    unfolding eq[symmetric] by (rule recvPacketsLoop_Datagram[OF ne Cons.prems(2)])
  also have "\<dots> = recvPacketsLoop seq (foldl (acceptPacket seq) (acceptPacket seq w p) ps)
           (?net'\<lparr>inbox := rest, outbox := outbox ?net' @ map ackPacket ps\<rparr>)"
    by (rule Cons.IH[OF nx sl])
  finally show ?case by simp
qed

lemma acceptPacket_next:
  assumes "validBase seq" "j < 10" "500 * j < length chunk"
  shows "acceptPacket seq
           \<lparr>totalPacketsExpected = 10, packetsReceived = replicate 10 False,
            totalPacketsReceived = int j, bytesReceived = int (500 * j),
            bufOut = take (500 * j) chunk @ drop (500 * j) rbuf, eofOut = eof0\<rparr>
           \<lparr>hdrSeq = int_to_char (seq + int j), hdrEof = fl,
            body = take 500 (drop (500 * j) chunk)\<rparr> =
         \<lparr>totalPacketsExpected = (if fl \<noteq> 0 then int j + 1 else 10),
          packetsReceived = replicate 10 False,
          totalPacketsReceived = int j + 1,
          bytesReceived = int (min (length chunk) (500 * Suc j)),
          bufOut = take (min (length chunk) (500 * Suc j)) chunk @
                   drop (min (length chunk) (500 * Suc j)) rbuf,
          eofOut = (eof0 \<or> fl \<noteq> 0)\<rparr>"
proof -
  define bdy where "bdy = take 500 (drop (500 * j) chunk)"
  define L where "L = min 500 (length chunk - 500 * j)"
  define m where "m = min (length chunk) (500 * Suc j)"
  define p where "p = \<lparr>hdrSeq = int_to_char (seq + int j), hdrEof = fl, body = bdy\<rparr>"
  define w where "w = \<lparr>totalPacketsExpected = 10, packetsReceived = replicate 10 False,
            totalPacketsReceived = int j, bytesReceived = int (500 * j),
            bufOut = take (500 * j) chunk @ drop (500 * j) rbuf, eofOut = eof0\<rparr>"
  have lb: "length bdy = L" by (simp add: bdy_def L_def)
  have m: "m = 500 * j + L" using assms(3) by (simp add: m_def L_def)
  have "L \<le> 500" by (simp add: L_def)
  then have rc: "received p - HEADER_SIZE = int L"
    unfolding received_def PACKET_SIZE_def HEADER_SIZE_def DATA_SIZE_def
    by (simp add: p_def lb)
  have tk: "take (nat (received p - HEADER_SIZE)) (body p) = bdy"
    unfolding rc by (simp add: p_def lb)
  have off: "nat (int j * DATA_SIZE) = 500 * j" by (simp add: DATA_SIZE_def nat_mult_distrib)
  have l1: "length (take (500 * j) chunk) = 500 * j" using assms(3) by simp
  have c2: "take (500 * j) chunk @ bdy = take m chunk"
  proof -
    have "take (500 * j) chunk @ bdy = take (500 * j + 500) chunk"
      by (simp add: take_add bdy_def)
    also have "\<dots> = take m chunk" by (simp add: min_def add.commute m_def)
    finally show ?thesis .
  qed
  have c3: "drop L (drop (500 * j) rbuf) = drop m rbuf"
    unfolding m by (simp add: add.commute)
  have mc: "memcpy (take (500 * j) chunk @ drop (500 * j) rbuf) (500 * j) bdy =
        take m chunk @ drop m rbuf"
  proof -
    have "memcpy (take (500 * j) chunk @ drop (500 * j) rbuf) (500 * j) bdy =
        (take (500 * j) chunk @ bdy) @ drop L (drop (500 * j) rbuf)"
      unfolding memcpy_def lb using l1 by simp
    then show ?thesis unfolding c2 c3 .
  qed
  have hs: "char_to_int (hdrSeq p) = seq + int j"
    using window_slot(3)[OF assms(1,2)] by (simp add: p_def)
  have A: "\<not> isPrevWindowAck seq (char_to_int (hdrSeq p))"
    unfolding hs by (rule window_slot(1)[OF assms(1,2)])
  have pn: "packetNumber (char_to_int (hdrSeq p)) = int j"
    unfolding hs by (rule window_slot(2)[OF assms(1,2)])
  have B: "\<not> packetsReceived w ! nat (packetNumber (char_to_int (hdrSeq p)))"
    unfolding pn using assms(2) by (simp add: w_def)
  note N = acceptPacket_new[OF A B]
  have fl: "hdrEof p = fl" by (simp add: p_def)
  have f1: "totalPacketsExpected (acceptPacket seq w p) = (if fl \<noteq> 0 then int j + 1 else 10)"
    using N(3,4) fl pn by (cases "fl = 0") (simp_all add: w_def)
  have f2: "packetsReceived (acceptPacket seq w p) = replicate 10 False"
    by (simp add: acceptPacket_flags w_def)
  have f3: "totalPacketsReceived (acceptPacket seq w p) = int j + 1"
    using N(1) by (simp add: w_def)
  have f4: "bytesReceived (acceptPacket seq w p) = int m"
    using N(2) rc m by (simp add: w_def)
  have "bufOut w = take (500 * j) chunk @ drop (500 * j) rbuf" by (simp add: w_def)
  then have f5: "bufOut (acceptPacket seq w p) = take m chunk @ drop m rbuf"
    using N(5) unfolding pn off tk by (simp only: mc)
  have f6: "eofOut (acceptPacket seq w p) = (eof0 \<or> fl \<noteq> 0)"
    using N(3,4) fl by (cases "fl = 0") (simp_all add: w_def)
  have "acceptPacket seq w p =
         \<lparr>totalPacketsExpected = (if fl \<noteq> 0 then int j + 1 else 10),
          packetsReceived = replicate 10 False,
          totalPacketsReceived = int j + 1,
          bytesReceived = int m,
          bufOut = take m chunk @ drop m rbuf,
          eofOut = (eof0 \<or> fl \<noteq> 0)\<rparr>"
    by (rule rwindow.equality) (simp_all add: f1 f2 f3 f4 f5 f6)
  then show ?thesis unfolding w_def p_def bdy_def m_def .
qed


lemma windowPackets_nth:
  assumes "j < packetCount chunk"
  shows "windowPackets chunk seq e ! j =
         \<lparr>hdrSeq = int_to_char (seq + int j),
          hdrEof = (if Suc j = packetCount chunk \<and> e then 1 else 0),
          body = take 500 (drop (500 * j) chunk)\<rparr>"
  using assms by (simp add: windowPackets_def)

lemma windowPackets_length: "length (windowPackets chunk seq e) = packetCount chunk"
  by (simp add: windowPackets_def)

lemma windowPackets_acks: "map ackPacket (windowPackets chunk seq e) = windowAcks chunk seq"
  by (simp add: windowPackets_def windowAcks_def ackPacket_echo)

lemma foldl_acceptPacket_prefix:
  assumes "validBase seq" "chunk \<noteq> []" "length chunk \<le> 5000"
  shows "j < packetCount chunk \<Longrightarrow>
         foldl (acceptPacket seq) (initWindow rbuf eof0) (take j (windowPackets chunk seq e)) =
         \<lparr>totalPacketsExpected = 10, packetsReceived = replicate 10 False,
          totalPacketsReceived = int j, bytesReceived = int (500 * j),
          bufOut = take (500 * j) chunk @ drop (500 * j) rbuf, eofOut = eof0\<rparr>"
proof (induction j)
  case 0
  show ?case by (simp add: initWindow_def initPacketsReceived_def WINDOW_SIZE_def)
next
  case (Suc j)
  then have j: "j < packetCount chunk" and nl: "Suc j \<noteq> packetCount chunk" by simp_all
  have j10: "j < 10" using Suc.prems packetCount_bounds(4)[OF assms(2,3)] by simp
  from Suc.prems have "500 * Suc j \<le> 500 * (packetCount chunk - 1)" by simp
  with packetCount_bounds(2)[OF assms(2)] have lt: "500 * Suc j < length chunk" by simp
  then have lt0: "500 * j < length chunk" by simp
  have mn: "min (length chunk) (500 * Suc j) = 500 * Suc j" using lt by simp
  have tk: "take (Suc j) (windowPackets chunk seq e) =
            take j (windowPackets chunk seq e) @ [windowPackets chunk seq e ! j]"
    using j by (simp add: take_Suc_conv_app_nth windowPackets_length)
  have nth: "windowPackets chunk seq e ! j =
         \<lparr>hdrSeq = int_to_char (seq + int j), hdrEof = 0, body = take 500 (drop (500 * j) chunk)\<rparr>"
    using windowPackets_nth[OF j, of seq e] nl by simp
  show ?case
    unfolding tk foldl_append Suc.IH[OF j] nth foldl_Cons foldl_Nil
      acceptPacket_next[OF assms(1) j10 lt0] mn
    by simp
qed

lemma foldl_acceptPacket_window:
  assumes "validBase seq" "chunk \<noteq> []" "length chunk \<le> 5000"
  shows "foldl (acceptPacket seq) (initWindow rbuf eof0) (windowPackets chunk seq e) =
         \<lparr>totalPacketsExpected = (if e then int (packetCount chunk) else 10),
          packetsReceived = replicate 10 False,
          totalPacketsReceived = int (packetCount chunk),
          bytesReceived = int (length chunk),
          bufOut = chunk @ drop (length chunk) rbuf, eofOut = (eof0 \<or> e)\<rparr>"
proof -
  define j where "j = packetCount chunk - 1"
  have pc: "packetCount chunk = Suc j" using packetCount_bounds(1)[OF assms(2)] by (simp add: j_def)
  have j: "j < packetCount chunk" by (simp add: pc)
  have j10: "j < 10" using j packetCount_bounds(4)[OF assms(2,3)] by simp
  have lt0: "500 * j < length chunk" using packetCount_bounds(2)[OF assms(2)] by (simp add: j_def)
  have mn: "min (length chunk) (500 * Suc j) = length chunk"
    using packetCount_bounds(3)[OF assms(2)] by (simp add: pc)
  have "windowPackets chunk seq e = take (Suc j) (windowPackets chunk seq e)"
    by (simp add: windowPackets_length pc)
  also have "\<dots> = take j (windowPackets chunk seq e) @ [windowPackets chunk seq e ! j]"
    using j by (simp add: take_Suc_conv_app_nth windowPackets_length)
  finally have sp: "windowPackets chunk seq e =
      take j (windowPackets chunk seq e) @ [windowPackets chunk seq e ! j]" .
  have nth: "windowPackets chunk seq e ! j =
         \<lparr>hdrSeq = int_to_char (seq + int j), hdrEof = (if e then 1 else 0),
          body = take 500 (drop (500 * j) chunk)\<rparr>"
    using windowPackets_nth[OF j, of seq e] pc by simp
  have "foldl (acceptPacket seq) (initWindow rbuf eof0) (windowPackets chunk seq e) =
        foldl (acceptPacket seq) (initWindow rbuf eof0)
          (take j (windowPackets chunk seq e) @ [windowPackets chunk seq e ! j])"
    using sp by simp
  also have "\<dots> = \<lparr>totalPacketsExpected = (if (if e then 1 else 0) \<noteq> (0::byte) then int j + 1 else 10),
          packetsReceived = replicate 10 False,
          totalPacketsReceived = int j + 1,
          bytesReceived = int (length chunk),
          bufOut = take (length chunk) chunk @ drop (length chunk) rbuf,
          eofOut = (eof0 \<or> (if e then 1 else 0) \<noteq> (0::byte))\<rparr>"
    unfolding foldl_append foldl_acceptPacket_prefix[OF assms j] nth foldl_Cons foldl_Nil
      acceptPacket_next[OF assms(1) j10 lt0] mn ..
  finally show ?thesis by (simp add: pc)
qed

lemma recvPackets_window:
  assumes "validBase seq" "chunk \<noteq> []" "length chunk \<le> 5000" "sendsLeft net = None"
    "e \<or> packetCount chunk = 10"
  shows "recvPackets rbuf eof0 seq (net\<lparr>inbox := map Datagram (windowPackets chunk seq e) @ rest\<rparr>) =
         Returned
           (\<lparr>totalPacketsExpected = int (packetCount chunk),
             packetsReceived = replicate 10 False,
             totalPacketsReceived = int (packetCount chunk),
             bytesReceived = int (length chunk),
             bufOut = chunk @ drop (length chunk) rbuf, eofOut = (eof0 \<or> e)\<rparr>,
            net\<lparr>inbox := rest, outbox := outbox net @ windowAcks chunk seq\<rparr>)"
proof -
  let ?ps = "windowPackets chunk seq e"
  have early: "\<forall>k < length ?ps.
      totalPacketsReceived (foldl (acceptPacket seq) (initWindow rbuf eof0) (take k ?ps)) \<noteq>
      totalPacketsExpected (foldl (acceptPacket seq) (initWindow rbuf eof0) (take k ?ps))"
  proof (intro allI impI)
    fix k assume "k < length ?ps"
    then have k: "k < packetCount chunk" by (simp add: windowPackets_length)
    with packetCount_bounds(4)[OF assms(2,3)] have "k < 10" by simp
    then show "totalPacketsReceived (foldl (acceptPacket seq) (initWindow rbuf eof0) (take k ?ps)) \<noteq>
      totalPacketsExpected (foldl (acceptPacket seq) (initWindow rbuf eof0) (take k ?ps))"
      unfolding foldl_acceptPacket_prefix[OF assms(1-3) k] by simp
  qed
  have fin: "(if e then int (packetCount chunk) else 10) = int (packetCount chunk)"
    using assms(5) by auto
  show ?thesis
    unfolding recvPackets_def recvPacketsLoop_fold[OF assms(4) early]
      foldl_acceptPacket_window[OF assms(1-3)] windowPackets_acks fin
    by (rule recvPacketsLoop_done) simp
qed

section \<open>A whole file at the receiver\<close>

lemma datagrams_append: "datagrams (map Datagram ds @ rs) = ds @ datagrams rs"
  by (induction ds) simp_all

lemma receiveFileLoop_eof: "receiveFileLoop rbuf True seq r = Returned r"
  by (simp add: receiveFileLoop.simps)

lemma receiveFileLoop_step:
  "receiveFileLoop rbuf False seq r =
     (case recvPackets rbuf False seq (rnet r) of
        Died e \<Rightarrow> Died e
      | Blocked (w, net') \<Rightarrow> Blocked (r\<lparr>rnet := net'\<rparr>)
      | Returned (w, net') \<Rightarrow>
          receiveFileLoop (bufOut w) (eofOut w) (advance seq)
            \<lparr>rnet = net', written = fwrite (bufOut w) (bytesReceived w) (written r)\<rparr>)"
  by (subst receiveFileLoop.simps) simp

lemma recvPackets_nothing:
  "recvPackets rbuf eof0 seq (net\<lparr>inbox := []\<rparr>) =
     Blocked (initWindow rbuf eof0, net\<lparr>inbox := []\<rparr>)"
  unfolding recvPackets_def
  by (rule recvPacketsLoop_Nil) (simp add: initWindow_def WINDOW_SIZE_def)

lemma receiveFileLoop_inorder:
  assumes "length rbuf = 5000" "validBase seq" "sendsLeft (rnet r) = None"
    "inbox (rnet r) = map Datagram (allPackets seq P)"
  shows "receiveFileLoop rbuf False seq r =
         (if length P mod 5000 \<noteq> 0 then Returned else Blocked)
           \<lparr>rnet = (rnet r)\<lparr>inbox := [],
                     outbox := outbox (rnet r) @ datagrams (timelyAcks seq P)\<rparr>,
            written = written r @ P\<rparr>"
  using assms
proof (induction "length P" arbitrary: P r seq rbuf rule: less_induct)
  case less
  show ?case
  proof (cases "P = []")
    case True
    have ib: "inbox (rnet r) = []" using less.prems(4) True by (simp add: allPackets.simps)
    then have e: "rnet r = (rnet r)\<lparr>inbox := []\<rparr>" by simp
    have "recvPackets rbuf False seq (rnet r) = recvPackets rbuf False seq ((rnet r)\<lparr>inbox := []\<rparr>)"
      using e by simp
    then have "recvPackets rbuf False seq (rnet r) =
          Blocked (initWindow rbuf False, (rnet r)\<lparr>inbox := []\<rparr>)"
      by (simp only: recvPackets_nothing)
    then show ?thesis
      unfolding receiveFileLoop_step using True by (simp add: timelyAcks.simps)
  next
    case False
    define chunk where "chunk = take 5000 P"
    define e where "e = (length P < 5000)"
    define rest where "rest = map Datagram (allPackets (advance seq) (drop 5000 P))"
    define w where "w = \<lparr>totalPacketsExpected = int (packetCount chunk),
             packetsReceived = replicate 10 False,
             totalPacketsReceived = int (packetCount chunk),
             bytesReceived = int (length chunk),
             bufOut = chunk @ drop (length chunk) rbuf, eofOut = (False \<or> e)\<rparr>"
    define net' where "net' = (rnet r)\<lparr>inbox := rest, outbox := outbox (rnet r) @ windowAcks chunk seq\<rparr>"
    define r' where "r' = \<lparr>rnet = net', written = written r @ chunk\<rparr>"
    have c: "chunk \<noteq> []" "length chunk \<le> 5000" using False by (simp_all add: chunk_def)
    have full: "e \<or> packetCount chunk = 10"
    proof (cases e)
      case True then show ?thesis by simp
    next
      case False
      then have "length chunk = 5000" by (simp add: e_def chunk_def)
      then show ?thesis by (simp add: packetCount_def)
    qed
    have ib: "inbox (rnet r) = map Datagram (windowPackets chunk seq e) @ rest"
      using less.prems(4) False
      by (subst (asm) allPackets.simps) (simp add: chunk_def e_def rest_def)
    then have "rnet r = (rnet r)\<lparr>inbox := map Datagram (windowPackets chunk seq e) @ rest\<rparr>"
      by simp
    then have "recvPackets rbuf False seq (rnet r) =
      recvPackets rbuf False seq ((rnet r)\<lparr>inbox := map Datagram (windowPackets chunk seq e) @ rest\<rparr>)"
      by simp
    also have "\<dots> = Returned (w, net')"
      unfolding w_def net'_def
      by (rule recvPackets_window[OF less.prems(2) c less.prems(3) full])
    finally have rp: "recvPackets rbuf False seq (rnet r) = Returned (w, net')" .
    have fw: "fwrite (bufOut w) (bytesReceived w) (written r) = written r @ chunk"
      by (simp add: fwrite_def w_def)
    have st: "receiveFileLoop rbuf False seq r = receiveFileLoop (bufOut w) e (advance seq) r'"
      unfolding receiveFileLoop_step rp by (simp add: fw r'_def) (simp add: w_def)
    have ta: "datagrams (timelyAcks seq P) =
              windowAcks chunk seq @ datagrams (timelyAcks (advance seq) (drop 5000 P))"
      using False by (subst timelyAcks.simps) (simp add: datagrams_append chunk_def)
    show ?thesis
    proof (cases e)
      case True
      then have d: "drop 5000 P = []" "chunk = P" by (simp_all add: e_def chunk_def)
      then have "rest = []" by (simp add: rest_def allPackets.simps)
      moreover have "length P mod 5000 \<noteq> 0" using True \<open>P \<noteq> []\<close> by (simp add: e_def)
      moreover have "timelyAcks (advance seq) [] = []" by (simp add: timelyAcks.simps)
      ultimately show ?thesis
        unfolding st using True d
        by (simp add: receiveFileLoop_eof r'_def net'_def ta)
    next
      case False
      then have ge: "5000 \<le> length P" by (simp add: e_def)
      then have lc: "length chunk = 5000" by (simp add: chunk_def)
      have lb: "length (bufOut w) = 5000" using less.prems(1) lc by (simp add: w_def)
      have sh: "length (drop 5000 P) < length P" using ge by simp
      have "receiveFileLoop (bufOut w) False (advance seq) r' =
         (if length (drop 5000 P) mod 5000 \<noteq> 0 then Returned else Blocked)
           \<lparr>rnet = (rnet r')\<lparr>inbox := [],
                     outbox := outbox (rnet r') @ datagrams (timelyAcks (advance seq) (drop 5000 P))\<rparr>,
            written = written r' @ drop 5000 P\<rparr>"
        using less.prems(3)
        by (intro less.hyps[OF sh lb validBase_advance[OF less.prems(2)]])
           (simp_all add: r'_def net'_def rest_def)
      moreover have "length (drop 5000 P) mod 5000 = length P mod 5000"
        using ge by (simp add: le_mod_geq)
      moreover have "chunk @ drop 5000 P = P" by (simp add: chunk_def)
      ultimately show ?thesis
        unfolding st using False
        by (simp add: r'_def net'_def ta)
    qed
  qed
qed

section \<open>End to end over a lossless, ordered link\<close>

lemma sendFile_timely:
  assumes "length sbuf = 5000"
  shows "sendFile sbuf P \<lparr>inbox = timelyAcks 0 P, sendsLeft = None, outbox = []\<rparr> =
         Inr \<lparr>snet = \<lparr>inbox = [], sendsLeft = None, outbox = allPackets 0 P\<rparr>,
              totalTimeouts = (if P = [] then 0 else 1),
              sfile = \<lparr>unread = [], eofIndicator = True\<rparr>,
              overruns = allOverruns P\<rparr>"
proof -
  have v: "validBase 0" by (simp add: validBase_def)
  show ?thesis
    unfolding sendFile_def
    by (subst sendFileLoop_timely[OF assms v, where rest = "[]"]) (simp_all add: fopen_rb_def)
qed

lemma receiveFile_inorder:
  assumes "length rbuf = 5000"
  shows "receiveFile rbuf \<lparr>inbox = map Datagram (allPackets 0 P), sendsLeft = None, outbox = []\<rparr> =
         (if length P mod 5000 \<noteq> 0 then Returned else Blocked)
           \<lparr>rnet = \<lparr>inbox = [], sendsLeft = None, outbox = datagrams (timelyAcks 0 P)\<rparr>,
            written = P\<rparr>"
proof -
  have v: "validBase 0" by (simp add: validBase_def)
  show ?thesis
    unfolding receiveFile_def
    by (subst receiveFileLoop_inorder[OF assms v, where P = P]) simp_all
qed

lemma allPackets_short:
  assumes "P \<noteq> []" "length P \<le> 5000"
  shows "allPackets seq P = windowPackets P seq (length P < 5000)"
  using assms by (subst allPackets.simps) (simp add: allPackets.simps[of _ "[]"])

lemma timelyAcks_short:
  assumes "P \<noteq> []" "length P \<le> 5000"
  shows "timelyAcks seq P = map Datagram (windowAcks P seq) @ [Timeout]"
  using assms by (subst timelyAcks.simps) (simp add: timelyAcks.simps[of _ "[]"])

lemma allOverruns_short:
  assumes "P \<noteq> []" "length P \<le> 5000"
  shows "allOverruns P = sweepOverruns 5000 (int (length P)) initAcks"
  using assms by (subst allOverruns.simps) (simp add: allOverruns.simps[of "[]"])

section \<open>Files of one short packet\<close>

lemma packetCount_one:
  fixes P :: "byte list"
  assumes "P \<noteq> []" "length P \<le> 500"
  shows "packetCount P = 1"
proof -
  from assms(1) have "Suc 0 \<le> length P" by (cases P) simp_all
  with assms(2) have "500 \<le> length P + 499" "length P + 499 < 500 * Suc 1" by arith+
  then have "(length P + 499) div 500 = 1" by (intro div_nat_eqI) simp_all
  then show ?thesis by (simp add: packetCount_def)
qed

lemma windowPackets_one:
  assumes "P \<noteq> []" "length P \<le> 500"
  shows "windowPackets P seq e =
         [\<lparr>hdrSeq = int_to_char seq, hdrEof = (if e then 1 else 0), body = P\<rparr>]"
  using assms by (simp add: windowPackets_def packetCount_one)

lemma windowAcks_one:
  assumes "P \<noteq> []" "length P \<le> 500"
  shows "windowAcks P seq = [int_to_char seq]"
  using assms by (simp add: windowAcks_def packetCount_one)

lemma sweepOverruns_small:
  fixes P :: "byte list"
  assumes "P \<noteq> []" "length P \<le> 498"
  shows "sweepOverruns 5000 (int (length P)) acks = []"
proof -
  from assms have pc: "packetCount P = 1" by (intro packetCount_one) simp_all
  have n: "numberOfPackets (int (length P)) = 1"
    by (simp add: numberOfPackets_packetCount pc)
  have "int (length P) smod 500 = int (length P) mod 500" by (rule smod_nonneg) simp_all
  also have "\<dots> = int (length P)" using assms(2) by simp
  finally have m: "int (length P) smod 500 = int (length P)" .
  have ps: "calculatePacketSize (int (length P)) True = int (length P) + 2"
    using assms(1) by (simp add: calculatePacketSize_def DATA_SIZE_def HEADER_SIZE_def m)
  have co: "copyOverruns 5000 0 (int (length P) + 2) = []"
    using assms(2)
    by (simp add: copyOverruns_def packetCopy_def HEADER_SIZE_def PACKET_SIZE_def DATA_SIZE_def)
  show ?thesis
    unfolding sweepOverruns_def n by (simp add: ps co)
qed

lemma sendFile_small:
  fixes P :: "byte list"
  assumes "P \<noteq> []" "length P \<le> 498" "length sbuf = 5000"
  shows "sendFile sbuf P \<lparr>inbox = replicate k Timeout @ [Datagram 0], sendsLeft = None, outbox = []\<rparr> =
         (if k \<le> 100
          then Inr \<lparr>snet = \<lparr>inbox = [], sendsLeft = None,
                          outbox = replicate (Suc k) \<lparr>hdrSeq = 0, hdrEof = 1, body = P\<rparr>\<rparr>,
                    totalTimeouts = 1,
                    sfile = \<lparr>unread = [], eofIndicator = True\<rparr>,
                    overruns = []\<rparr>
          else Inl ReceiverNotResponding)"
proof -
  let ?pkt = "\<lparr>hdrSeq = 0, hdrEof = 1, body = P\<rparr>"
  let ?n = "int (length P)"
  let ?f = "\<lparr>unread = [], eofIndicator = True\<rparr>"
  let ?net = "\<lparr>inbox = replicate k Timeout @ [Datagram (0::byte)], sendsLeft = None,
               outbox = ([]::dgram list)\<rparr>"
  let ?s0 = "\<lparr>snet = ?net, totalTimeouts = 0, sfile = ?f, overruns = []\<rparr>"
  define buf where "buf = P @ drop (length P) sbuf"
  have le: "length P \<le> 500" "length P \<le> 5000" using assms(2) by simp_all
  have lb: "int (length buf) = 5000" using assms(2,3) by (simp add: buf_def)
  have fr: "fread 5000 (sfile \<lparr>snet = ?net, totalTimeouts = 0, sfile = fopen_rb P, overruns = []\<rparr>) =
            (P, ?f)"
    using assms(2) by (simp add: fread_def fopen_rb_def)
  have st: "sendFile sbuf P ?net =
            (case sendPackets buf ?n 0 ?s0 of
               Inl e \<Rightarrow> Inl e
             | Inr s'' \<Rightarrow> sendFileLoop buf (advance 0) s'')"
    unfolding sendFile_def buf_def
    by (subst sendFileLoop_step[OF fr]) (simp add: assms(1))
  have ne: "(0::int) \<noteq> numberOfPackets ?n"
    by (simp add: numberOfPackets_packetCount packetCount_one[OF assms(1) le(1)])
  have sw: "sweepPackets buf ?n 0 True initAcks = [?pkt]"
    unfolding buf_def sweepPackets_window[OF assms(1) le(2)]
    by (simp add: windowPackets_one[OF assms(1) le(1)] int_to_char_def)
  have ov: "sweepOverruns (int (length buf)) ?n initAcks = []"
    unfolding lb by (rule sweepOverruns_small[OF assms(1,2)])
  show ?thesis
  proof (cases "k \<le> 100")
    case True
    let ?sk = "\<lparr>snet = \<lparr>inbox = [Datagram (0::byte)], sendsLeft = None, outbox = replicate k ?pkt\<rparr>,
                 totalTimeouts = int k, sfile = ?f, overruns = []\<rparr>"
    let ?se = "\<lparr>snet = \<lparr>inbox = [], sendsLeft = None, outbox = replicate (Suc k) ?pkt\<rparr>,
                 totalTimeouts = 1, sfile = ?f, overruns = []\<rparr>"
    have "sendPackets buf ?n 0 ?s0 = sendPacketsLoop buf ?n 0 initAcks 0 ?s0"
      by (simp add: sendPackets_def)
    also have "\<dots> = sendPacketsLoop buf ?n 0 initAcks 0 ?sk"
      using True
      by (subst sendPacketsLoop_timeouts[OF ne, where k = k and rest = "[Datagram 0]"])
         (simp_all add: MAX_TIMEOUTS_def feof_def sw ov concat_replicate_single)
    also have "\<dots> = sendPackets buf ?n 0 ?sk" by (simp add: sendPackets_def)
    also have "\<dots> = Inr ?se"
      unfolding buf_def using ov[unfolded buf_def]
      by (subst sendPackets_window[OF assms(1) le(2), where rest = "[]"])
         (simp_all add: validBase_def windowAcks_one[OF assms(1) le(1)]
            windowPackets_one[OF assms(1) le(1)] int_to_char_def feof_def
            replicate_append_same)
    finally have sp: "sendPackets buf ?n 0 ?s0 = Inr ?se" .
    have fr2: "fread 5000 (sfile ?se) = ([], ?f)" by (simp add: fread_def)
    have fin: "sendFileLoop buf (advance 0) ?se = Inr ?se"
      by (subst sendFileLoop_step[OF fr2]) simp
    show ?thesis
      unfolding st sp sum.case fin using True by simp
  next
    case False
    have "sendPackets buf ?n 0 ?s0 = sendPacketsLoop buf ?n 0 initAcks 0 ?s0"
      by (simp add: sendPackets_def)
    also have "\<dots> = Inl ReceiverNotResponding"
      using False
      by (intro sendPacketsLoop_abort[OF ne, where k = k and rest = "[Datagram 0]"])
         (simp_all add: MAX_TIMEOUTS_def)
    finally show ?thesis unfolding st using False by simp
  qed
qed

lemma receiveFile_small:
  fixes P :: "byte list"
  assumes "P \<noteq> []" "length P \<le> 500" "length rbuf = 5000"
  shows "receiveFile rbuf
           \<lparr>inbox = replicate (Suc n) (Datagram \<lparr>hdrSeq = 0, hdrEof = 1, body = P\<rparr>),
            sendsLeft = None, outbox = []\<rparr> =
         Returned \<lparr>rnet = \<lparr>inbox = replicate n (Datagram \<lparr>hdrSeq = 0, hdrEof = 1, body = P\<rparr>),
                          sendsLeft = None, outbox = [0]\<rparr>,
                   written = P\<rparr>"
proof -
  let ?pkt = "\<lparr>hdrSeq = 0, hdrEof = 1, body = P\<rparr>"
  let ?net = "\<lparr>inbox = replicate (Suc n) (Datagram ?pkt), sendsLeft = None, outbox = ([]::byte list)\<rparr>"
  have le: "length P \<le> 5000" using assms(2) by simp
  have v: "validBase 0" by (simp add: validBase_def)
  have wp: "windowPackets P 0 True = [?pkt]"
    by (simp add: windowPackets_one[OF assms(1,2)] int_to_char_def)
  have "recvPackets rbuf False 0 ?net =
        recvPackets rbuf False 0
          (?net\<lparr>inbox := map Datagram (windowPackets P 0 True) @ replicate n (Datagram ?pkt)\<rparr>)"
    by (simp add: wp)
  also have "\<dots> =
        Returned
           (\<lparr>totalPacketsExpected = int (packetCount P),
             packetsReceived = replicate 10 False,
             totalPacketsReceived = int (packetCount P),
             bytesReceived = int (length P),
             bufOut = P @ drop (length P) rbuf, eofOut = (False \<or> True)\<rparr>,
            ?net\<lparr>inbox := replicate n (Datagram ?pkt), outbox := outbox ?net @ windowAcks P 0\<rparr>)"
    by (rule recvPackets_window[OF v assms(1) le]) simp_all
  finally have rp: "recvPackets rbuf False 0 ?net =
        Returned
           (\<lparr>totalPacketsExpected = int (packetCount P),
             packetsReceived = replicate 10 False,
             totalPacketsReceived = int (packetCount P),
             bytesReceived = int (length P),
             bufOut = P @ drop (length P) rbuf, eofOut = True\<rparr>,
            \<lparr>inbox = replicate n (Datagram ?pkt), sendsLeft = None, outbox = [0]\<rparr>)"
    by (simp add: windowAcks_one[OF assms(1,2)] int_to_char_def)
  show ?thesis
    unfolding receiveFile_def receiveFileLoop_step receiver.select_convs rp
    by (simp add: receiveFileLoop_eof fwrite_def)
qed

text \<open>
  C1, as the code has it. The file \<open>P\<close> is not empty and has at most 498 bytes: it goes
  out as one packet of at most 500 bytes, which \<open>sendPackets\<close> builds inside its packet
  buffer (no overrun is recorded). The link loses, duplicates and reorders nothing, and no send
  fails; it may take any time. The sender's receive times out \<open>k\<close> times before the
  receiver's ack reaches it, and it sends the packet once per timeout and once at the start. If
  \<open>k \<le> 100\<close> it returns normally after \<open>k + 1\<close> copies of the packet; otherwise it
  ends with the fatal error. The receiver, handed the copies, returns normally after the first,
  having sent one ack, and the file it has written is \<open>P\<close>.
\<close>

theorem lossless_transfer:
  fixes P :: "byte list"
  assumes "P \<noteq> []" and "length P \<le> 498" and "length sbuf = 5000" and "length rbuf = 5000"
  shows "sendFile sbuf P
             \<lparr>inbox = replicate k Timeout @ [Datagram 0], sendsLeft = None, outbox = []\<rparr> =
           (if k \<le> 100
            then Inr \<lparr>snet = \<lparr>inbox = [], sendsLeft = None,
                            outbox = replicate (Suc k) \<lparr>hdrSeq = 0, hdrEof = 1, body = P\<rparr>\<rparr>,
                      totalTimeouts = 1,
                      sfile = \<lparr>unread = [], eofIndicator = True\<rparr>,
                      overruns = []\<rparr>
            else Inl ReceiverNotResponding) \<and>
         receiveFile rbuf
             \<lparr>inbox = replicate (Suc n) (Datagram \<lparr>hdrSeq = 0, hdrEof = 1, body = P\<rparr>),
              sendsLeft = None, outbox = []\<rparr> =
           Returned \<lparr>rnet = \<lparr>inbox = replicate n (Datagram \<lparr>hdrSeq = 0, hdrEof = 1, body = P\<rparr>),
                            sendsLeft = None, outbox = [0]\<rparr>,
                     written = P\<rparr>"
proof -
  from assms(2) have "length P \<le> 500" by simp
  from sendFile_small[OF assms(1-3)] receiveFile_small[OF assms(1) this assms(4)]
  show ?thesis by (simp only:) 
qed

theorem lossless_transfer_witness:
  "replicate 498 (7 :: byte) \<noteq> [] \<and> length (replicate 498 (7 :: byte)) \<le> 498 \<and>
   length (replicate 5000 (0 :: byte)) = 5000 \<and>
   sendFile (replicate 5000 0) (replicate 498 7)
       \<lparr>inbox = [Timeout, Timeout, Datagram 0], sendsLeft = None, outbox = []\<rparr> =
     Inr \<lparr>snet = \<lparr>inbox = [], sendsLeft = None,
                   outbox = replicate 3 \<lparr>hdrSeq = 0, hdrEof = 1, body = replicate 498 7\<rparr>\<rparr>,
          totalTimeouts = 1, sfile = \<lparr>unread = [], eofIndicator = True\<rparr>, overruns = []\<rparr> \<and>
   receiveFile (replicate 5000 0)
       \<lparr>inbox = replicate 3 (Datagram \<lparr>hdrSeq = 0, hdrEof = 1, body = replicate 498 7\<rparr>),
        sendsLeft = None, outbox = []\<rparr> =
     Returned \<lparr>rnet = \<lparr>inbox = replicate 2 (Datagram \<lparr>hdrSeq = 0, hdrEof = 1, body = replicate 498 7\<rparr>),
                      sendsLeft = None, outbox = [0]\<rparr>,
               written = replicate 498 7\<rparr>"
proof -
  have r: "replicate 2 Timeout = [Timeout, Timeout :: byte recv_result]"
    by (simp add: numeral_2_eq_2)
  have "(3::nat) = Suc 2" by simp
  then have t: "\<And>x :: dgram. replicate 3 x = replicate (Suc 2) x"
    "\<And>x :: dgram recv_result. replicate 3 x = replicate (Suc 2) x" by (simp_all only:)
  from lossless_transfer [where P = "replicate 498 7" and sbuf = "replicate 5000 0"
      and rbuf = "replicate 5000 0" and k = 2 and n = 2]
  show ?thesis unfolding t by (simp add: r)
qed

text \<open>
  The empty file: the sender's first \<open>fread\<close> returns 0, it sends nothing and returns; the
  receiver, to which nothing is ever delivered, stays in its first \<open>recvfrom\<close>. And a
  one-byte file whose ack is delivered, but only after the sender's 101st timeout: the sender
  has ended with the fatal error.
\<close>

theorem empty_file_counterexample:
  "sendFile (replicate 5000 0) [] \<lparr>inbox = [], sendsLeft = None, outbox = []\<rparr> =
     Inr \<lparr>snet = \<lparr>inbox = [], sendsLeft = None, outbox = []\<rparr>,
          totalTimeouts = 0, sfile = \<lparr>unread = [], eofIndicator = True\<rparr>, overruns = []\<rparr> \<and>
   receiveFile (replicate 5000 0) \<lparr>inbox = [], sendsLeft = None, outbox = []\<rparr> =
     Blocked \<lparr>rnet = \<lparr>inbox = [], sendsLeft = None, outbox = []\<rparr>, written = []\<rparr> \<and>
   sendFile (replicate 5000 0) [7]
       \<lparr>inbox = replicate 101 Timeout @ [Datagram 0], sendsLeft = None, outbox = []\<rparr> =
     Inl ReceiverNotResponding"
proof -
  have a: "allPackets 0 [] = []" by (simp add: allPackets.simps)
  have t: "timelyAcks 0 [] = []" by (simp add: timelyAcks.simps)
  have v: "allOverruns [] = []" by (simp add: allOverruns.simps)
  have l: "sendFile (replicate 5000 0) [7]
       \<lparr>inbox = replicate 101 Timeout @ [Datagram 0], sendsLeft = None, outbox = []\<rparr> =
     Inl ReceiverNotResponding"
    by (subst sendFile_small) simp_all
  from sendFile_timely[of "replicate 5000 0" "[]"] receiveFile_inorder[of "replicate 5000 0" "[]"]
  show ?thesis by (simp add: a t v l)
qed

section \<open>Files that fill a packet\<close>

lemma numberOfPackets_5000: "numberOfPackets 5000 = 10"
  by (simp add: numberOfPackets_def DATA_SIZE_def sdiv_nonneg smod_nonneg)

lemma upto_0_9: "[0..(9::int)] = [0, 1, 2, 3, 4, 5, 6, 7, 8, 9]"
  by (simp add: upto_rec1)

lemma sweepOverruns_full:
  "sweepOverruns 5000 5000 initAcks = replicate 9 (PastPacket 2) @ [PastPacket 2, PastBuf 2]"
proof -
  have c: "\<And>b. calculatePacketSize 5000 b = 502"
    by (simp add: calculatePacketSize_def DATA_SIZE_def PACKET_SIZE_def HEADER_SIZE_def smod_nonneg)
  show ?thesis
    unfolding sweepOverruns_def numberOfPackets_5000
    by (simp add: upto_0_9 c copyOverruns_def packetCopy_def DATA_SIZE_def PACKET_SIZE_def
          HEADER_SIZE_def initAcks_def WINDOW_SIZE_def numeral_eq_Suc)
qed

lemma sweepOverruns_500: "sweepOverruns 5000 500 initAcks = [PastPacket 2]"
proof -
  have n: "numberOfPackets 500 = 1"
    by (simp add: numberOfPackets_def DATA_SIZE_def sdiv_nonneg smod_nonneg)
  have c: "calculatePacketSize 500 True = 502"
    by (simp add: calculatePacketSize_def DATA_SIZE_def PACKET_SIZE_def HEADER_SIZE_def smod_nonneg)
  show ?thesis
    unfolding sweepOverruns_def n
    by (simp add: c copyOverruns_def packetCopy_def DATA_SIZE_def PACKET_SIZE_def
          HEADER_SIZE_def initAcks_def WINDOW_SIZE_def)
qed

text \<open>
  A file of 500 bytes, its ack in time: the run goes through the copy of 502 bytes to offset 2
  of the 502-byte packet buffer, and the log says so.
\<close>

lemma full_packet_overrun:
  "sendFile (replicate 5000 0) (replicate 500 1)
       \<lparr>inbox = [Datagram 0, Timeout], sendsLeft = None, outbox = []\<rparr> =
     Inr \<lparr>snet = \<lparr>inbox = [], sendsLeft = None,
                   outbox = [\<lparr>hdrSeq = 0, hdrEof = 1, body = replicate 500 1\<rparr>]\<rparr>,
          totalTimeouts = 1, sfile = \<lparr>unread = [], eofIndicator = True\<rparr>,
          overruns = [PastPacket 2]\<rparr>"
proof -
  let ?P = "replicate 500 (1 :: byte)"
  have ne: "?P \<noteq> []" by simp
  have ap: "allPackets 0 ?P = [\<lparr>hdrSeq = 0, hdrEof = 1, body = ?P\<rparr>]"
    by (simp add: allPackets_short windowPackets_one[OF ne] int_to_char_def)
  have ta: "timelyAcks 0 ?P = [Datagram 0, Timeout]"
    by (simp add: timelyAcks_short windowAcks_one[OF ne] int_to_char_def)
  have ao: "allOverruns ?P = [PastPacket 2]"
    by (simp add: allOverruns_short sweepOverruns_500)
  from sendFile_timely[of "replicate 5000 0" ?P] show ?thesis by (simp add: ap ta ao)
qed

section \<open>The end-of-stream flag\<close>

lemma eof_flag_iff:
  "hdrEof (makePacket buf bufIndex packetSize seq isLastPacket atEof i) \<noteq> 0 \<longleftrightarrow>
   isLastPacket \<and> atEof"
  by (simp add: makePacket_def)

text \<open>
  C2, at a failing input. A file of 5000 bytes: \<open>fread\<close> returns all 5000 without setting
  the end-of-file indicator, so none of the ten packets is flagged, though the tenth is the
  last packet of the file; the next \<open>fread\<close> returns 0 and the sender returns. The
  receiver has written the 5000 bytes and waits for a next window for ever. (The ten packets
  are full ones: the log has the ten copies that went two bytes past the packet buffer, the
  last of them also two bytes past \<open>buf\<close>.)
\<close>

theorem last_packet_without_flag:
  "sendFile (replicate 5000 0) (replicate 5000 1)
       \<lparr>inbox = timelyAcks 0 (replicate 5000 1), sendsLeft = None, outbox = []\<rparr> =
     Inr \<lparr>snet = \<lparr>inbox = [], sendsLeft = None, outbox = allPackets 0 (replicate 5000 1)\<rparr>,
          totalTimeouts = 1, sfile = \<lparr>unread = [], eofIndicator = True\<rparr>,
          overruns = replicate 9 (PastPacket 2) @ [PastPacket 2, PastBuf 2]\<rparr> \<and>
   map hdrEof (allPackets 0 (replicate 5000 1)) = replicate 10 0 \<and>
   map hdrSeq (allPackets 0 (replicate 5000 1)) = [0, 1, 2, 3, 4, 5, 6, 7, 8, 9] \<and>
   receiveFile (replicate 5000 0)
       \<lparr>inbox = map Datagram (allPackets 0 (replicate 5000 1)), sendsLeft = None, outbox = []\<rparr> =
     Blocked \<lparr>rnet = \<lparr>inbox = [], sendsLeft = None,
                      outbox = datagrams (timelyAcks 0 (replicate 5000 1))\<rparr>,
              written = replicate 5000 1\<rparr>"
proof -
  let ?P = "replicate 5000 (1 :: byte)"
  have pc: "packetCount ?P = 10" by (simp add: packetCount_def)
  have ap: "allPackets 0 ?P = windowPackets ?P 0 False"
    using allPackets_short[of ?P 0] by simp
  have ao: "allOverruns ?P = replicate 9 (PastPacket 2) @ [PastPacket 2, PastBuf 2]"
    using allOverruns_short[of ?P] by (simp add: sweepOverruns_full)
  have ups: "[0..<10] = [0, 1, 2, 3, 4, 5, 6, 7, 8, 9]" by (simp add: upt_rec)
  have fl: "map hdrEof (allPackets 0 ?P) = replicate 10 0"
    unfolding ap windowPackets_def pc by (simp add: comp_def map_replicate_const)
  have sq: "map hdrSeq (allPackets 0 ?P) = [0, 1, 2, 3, 4, 5, 6, 7, 8, 9]"
    unfolding ap windowPackets_def pc by (simp add: comp_def int_to_char_def ups)
  from sendFile_timely[of "replicate 5000 0" ?P] receiveFile_inorder[of "replicate 5000 0" ?P] fl sq
  show ?thesis by (simp add: ao)
qed

section \<open>Sequence space: bases, windows and the wrap\<close>

lemma windowCount_Nil: "windowCount [] = 0"
  by (simp add: windowCount_def)

lemma windowCount_Suc:
  assumes "Q \<noteq> []"
  shows "windowCount Q = Suc (windowCount (drop 5000 Q))"
proof (cases "length Q < 5000")
  case True
  from assms have "Suc 0 \<le> length Q" by (cases Q) simp_all
  with True have "5000 \<le> length Q + 4999" "length Q + 4999 < 5000 * Suc 1" by arith+
  then have "(length Q + 4999) div 5000 = 1" by (intro div_nat_eqI) simp_all
  with True show ?thesis by (simp add: windowCount_def)
next
  case False
  then obtain m where m: "length Q = m + 5000" by (metis add.commute le_Suc_ex not_less)
  have "(m + 5000 + 4999) div 5000 = (m + 4999 + 5000) div 5000" by (simp add: ac_simps)
  also have "\<dots> = Suc ((m + 4999) div 5000)" by simp
  finally show ?thesis by (simp add: windowCount_def m)
qed

lemma upt_0_Suc_map: "map f [0..<Suc m] = f 0 # map (\<lambda>k. f (Suc k)) [0..<m]"
proof -
  have "[0..<Suc m] = 0 # map Suc [0..<m]" by (simp only: map_Suc_upt) (simp add: upt_conv_Cons)
  then show ?thesis by (simp only: list.map map_map comp_def)
qed

lemma fileWindow_drop: "fileWindow Q (Suc k) = fileWindow (drop 5000 Q) k"
  by (simp add: fileWindow_def add.commute)

lemma fileWindow_0: "fileWindow Q 0 = take 5000 Q"
  by (simp add: fileWindow_def)

lemma last_window_drop:
  "Q \<noteq> [] \<Longrightarrow> length Q < 5000 * Suc (Suc k) \<longleftrightarrow> length (drop 5000 Q) < 5000 * Suc k"
  by (cases Q) auto

lemma advance_seqBase: "advance (seqBase j) = seqBase (Suc j)"
  by (simp add: seqBase_def)

lemma allPackets_windows:
  "allPackets (seqBase j) Q =
   concat (map (\<lambda>k. windowPackets (fileWindow Q k) (seqBase (j + k)) (length Q < 5000 * Suc k))
               [0..<windowCount Q])"
proof (induction "length Q" arbitrary: Q j rule: less_induct)
  case less
  show ?case
  proof (cases "Q = []")
    case True
    then show ?thesis by (simp add: allPackets.simps windowCount_Nil)
  next
    case False
    then have "length (drop 5000 Q) < length Q" by simp
    from less[OF this, of "Suc j"] False show ?thesis
      by (subst allPackets.simps)
         (simp only: windowCount_Suc[OF False] upt_0_Suc_map fileWindow_drop fileWindow_0
            last_window_drop[OF False] advance_seqBase, simp)
  qed
qed

lemma timelyAcks_windows:
  "timelyAcks (seqBase j) Q =
   concat (map (\<lambda>k. map Datagram (windowAcks (fileWindow Q k) (seqBase (j + k))) @ [Timeout])
               [0..<windowCount Q])"
proof (induction "length Q" arbitrary: Q j rule: less_induct)
  case less
  show ?case
  proof (cases "Q = []")
    case True
    then show ?thesis by (simp add: timelyAcks.simps windowCount_Nil)
  next
    case False
    then have "length (drop 5000 Q) < length Q" by simp
    from less[OF this, of "Suc j"] False show ?thesis
      by (subst timelyAcks.simps)
         (simp only: windowCount_Suc[OF False] upt_0_Suc_map fileWindow_drop fileWindow_0
            advance_seqBase, simp)
  qed
qed

lemma seqBase_0: "seqBase 0 = 0"
  by (simp add: seqBase_def)

lemma allPackets_filePackets: "allPackets 0 P = filePackets P"
  using allPackets_windows[of 0 P] by (simp add: filePackets_def seqBase_0)

lemma timelyAcks_fileAcks: "timelyAcks 0 P = fileAcks P"
  using timelyAcks_windows[of 0 P] by (simp add: fileAcks_def seqBase_0)

lemma sendFileLoop_unfold:
  "sendFileLoop buf seq s =
     (case fread 5000 (sfile s) of
        (chunk, f') \<Rightarrow>
          if chunk = [] then Inr (s\<lparr>sfile := f'\<rparr>)
          else (case sendPackets (chunk @ drop (length chunk) buf) (int (length chunk)) seq
                       (s\<lparr>sfile := f'\<rparr>) of
                  Inl e \<Rightarrow> Inl e
                | Inr s'' \<Rightarrow> sendFileLoop (chunk @ drop (length chunk) buf) (advance seq) s''))"
proof (cases "fread 5000 (sfile s)")
  case (Pair chunk f')
  show ?thesis unfolding sendFileLoop_step[OF Pair] Pair by simp
qed

lemma seqBase_step: "seqBase (Suc k) = (if seqBase k = 100 then 0 else seqBase k + 10)"
  by (simp add: seqBase_def advance_def MAX_START_SEQ_def MAX_TIMEOUTS_def WINDOW_SIZE_def)

lemma window_numbers:
  assumes "i \<in> {0..9}"
  shows "seqBase k + i \<le> 109 \<and> \<not> isPrevWindowAck (seqBase k) (seqBase k + i) \<and>
         packetNumber (seqBase k + i) = i \<and>
         char_to_int (int_to_char (seqBase k + i)) = seqBase k + i"
proof -
  have "validBase (seqBase k)" by (rule validBase_seqBase)
  then have b: "0 \<le> seqBase k" "seqBase k \<le> 100" "seqBase k mod 10 = 0"
    by (auto simp: validBase_def smod_nonneg)
  from assms have i: "0 \<le> i" "i \<le> 9" by simp_all
  from b i have "(seqBase k + i) mod 10 = i" by presburger
  with b i have "packetNumber (seqBase k + i) = i" by (simp add: packetNumber_mod)
  moreover from b i have "(seqBase k + i + 128) mod 256 - 128 = seqBase k + i" by simp
  ultimately show ?thesis using b i
    by (simp add: isPrevWindowAck_def Let_def WINDOW_SIZE_def char_to_int_int_to_char)
qed

lemma wrap_numbers:
  assumes "i \<in> {0..9}"
  shows "packetNumber (0 + i) = i \<and> packetNumber (100 + i) = i \<and>
         isPrevWindowAck 0 (100 + i) \<and> isPrevWindowAck 100 (0 + i)"
proof -
  from assms have i: "0 \<le> i" "i \<le> 9" by simp_all
  then have "(100 + i) mod 10 = i" by presburger
  with i show ?thesis
    by (simp add: packetNumber_mod isPrevWindowAck_def Let_def WINDOW_SIZE_def)
qed

lemma advance_100: "advance 100 = 0"
  by (simp add: advance_def MAX_START_SEQ_def MAX_TIMEOUTS_def)

text \<open>
  C8. On both endpoints the sequence base is always a multiple of 10 in [0, 100]. Both loops
  start at base \<open>seqBase 0 = 0\<close> and hand the next iteration \<open>advance\<close> of the base of the
  window just completed, so window \<open>k\<close> of a transfer runs at \<open>seqBase k\<close>: over a link
  that loses nothing the sender numbers the packets of window \<open>k\<close> from \<open>seqBase k\<close> and
  reads the acks so numbered, and the receiver takes the packets so numbered, window after
  window, and writes the file (the sender's log of out-of-bounds copies is as \<open>allOverruns\<close>
  says, and the receiver stays in \<open>recvfrom\<close> after a file of a multiple of 5000 bytes).
  The numbers \<open>base .. base + 9\<close> of one window stay at or below 109, pass the window test of
  their own base, map to slots 0..9 in order and fit a plain char; after the wrap the numbers
  0..9 take the same slots as 100..109 did, and neither range passes the window test of the
  other's base.
\<close>

theorem sequence_base_invariant:
  "validBase (seqBase k) \<and>
   seqBase (Suc k) = (if seqBase k = 100 then 0 else seqBase k + 10) \<and>
   (\<forall>i\<in>{0..9}. seqBase k + i \<le> 109 \<and>
                \<not> isPrevWindowAck (seqBase k) (seqBase k + i) \<and>
                packetNumber (seqBase k + i) = i \<and>
                char_to_int (int_to_char (seqBase k + i)) = seqBase k + i) \<and>
   advance 100 = 0 \<and>
   (\<forall>i\<in>{0..9}. packetNumber (0 + i) = i \<and> packetNumber (100 + i) = i \<and>
                isPrevWindowAck 0 (100 + i) \<and> isPrevWindowAck 100 (0 + i)) \<and>
   sendFile sbuf P net =
     sendFileLoop sbuf (seqBase 0)
       \<lparr>snet = net, totalTimeouts = 0, sfile = fopen_rb P, overruns = []\<rparr> \<and>
   sendFileLoop buf (seqBase k) s =
     (case fread 5000 (sfile s) of
        (chunk, f') \<Rightarrow>
          if chunk = [] then Inr (s\<lparr>sfile := f'\<rparr>)
          else (case sendPackets (chunk @ drop (length chunk) buf) (int (length chunk)) (seqBase k)
                       (s\<lparr>sfile := f'\<rparr>) of
                  Inl e \<Rightarrow> Inl e
                | Inr s'' \<Rightarrow>
                    sendFileLoop (chunk @ drop (length chunk) buf) (seqBase (Suc k)) s'')) \<and>
   receiveFile rbuf rn = receiveFileLoop rbuf False (seqBase 0) \<lparr>rnet = rn, written = []\<rparr> \<and>
   receiveFileLoop buf False (seqBase k) r =
     (case recvPackets buf False (seqBase k) (rnet r) of
        Died e \<Rightarrow> Died e
      | Blocked (w, net') \<Rightarrow> Blocked (r\<lparr>rnet := net'\<rparr>)
      | Returned (w, net') \<Rightarrow>
          receiveFileLoop (bufOut w) (eofOut w) (seqBase (Suc k))
            \<lparr>rnet = net', written = fwrite (bufOut w) (bytesReceived w) (written r)\<rparr>) \<and>
   (length sbuf = 5000 \<longrightarrow>
      sendFile sbuf P \<lparr>inbox = fileAcks P, sendsLeft = None, outbox = []\<rparr> =
        Inr \<lparr>snet = \<lparr>inbox = [], sendsLeft = None, outbox = filePackets P\<rparr>,
             totalTimeouts = (if P = [] then 0 else 1),
             sfile = \<lparr>unread = [], eofIndicator = True\<rparr>,
             overruns = allOverruns P\<rparr>) \<and>
   (length rbuf = 5000 \<longrightarrow>
      receiveFile rbuf \<lparr>inbox = map Datagram (filePackets P), sendsLeft = None, outbox = []\<rparr> =
        (if length P mod 5000 \<noteq> 0 then Returned else Blocked)
          \<lparr>rnet = \<lparr>inbox = [], sendsLeft = None, outbox = datagrams (fileAcks P)\<rparr>,
           written = P\<rparr>)"
proof -
  have v: "validBase (seqBase k)" by (rule validBase_seqBase)
  have st: "seqBase (Suc k) = (if seqBase k = 100 then 0 else seqBase k + 10)"
    by (rule seqBase_step)
  have win: "\<forall>i\<in>{0..9}. seqBase k + i \<le> 109 \<and>
                \<not> isPrevWindowAck (seqBase k) (seqBase k + i) \<and>
                packetNumber (seqBase k + i) = i \<and>
                char_to_int (int_to_char (seqBase k + i)) = seqBase k + i"
    using window_numbers by blast
  have wrap: "advance 100 = 0" by (rule advance_100)
  have apart: "\<forall>i\<in>{0..9}. packetNumber (0 + i) = i \<and> packetNumber (100 + i) = i \<and>
                isPrevWindowAck 0 (100 + i) \<and> isPrevWindowAck 100 (0 + i)"
    using wrap_numbers by blast
  have s0: "sendFile sbuf P net =
     sendFileLoop sbuf (seqBase 0)
       \<lparr>snet = net, totalTimeouts = 0, sfile = fopen_rb P, overruns = []\<rparr>"
    by (simp add: sendFile_def seqBase_0)
  have sl: "sendFileLoop buf (seqBase k) s =
     (case fread 5000 (sfile s) of
        (chunk, f') \<Rightarrow>
          if chunk = [] then Inr (s\<lparr>sfile := f'\<rparr>)
          else (case sendPackets (chunk @ drop (length chunk) buf) (int (length chunk)) (seqBase k)
                       (s\<lparr>sfile := f'\<rparr>) of
                  Inl e \<Rightarrow> Inl e
                | Inr s'' \<Rightarrow>
                    sendFileLoop (chunk @ drop (length chunk) buf) (seqBase (Suc k)) s''))"
    unfolding advance_seqBase[symmetric] by (rule sendFileLoop_unfold)
  have r0: "receiveFile rbuf rn = receiveFileLoop rbuf False (seqBase 0) \<lparr>rnet = rn, written = []\<rparr>"
    by (simp add: receiveFile_def seqBase_0)
  have rl: "receiveFileLoop buf False (seqBase k) r =
     (case recvPackets buf False (seqBase k) (rnet r) of
        Died e \<Rightarrow> Died e
      | Blocked (w, net') \<Rightarrow> Blocked (r\<lparr>rnet := net'\<rparr>)
      | Returned (w, net') \<Rightarrow>
          receiveFileLoop (bufOut w) (eofOut w) (seqBase (Suc k))
            \<lparr>rnet = net', written = fwrite (bufOut w) (bytesReceived w) (written r)\<rparr>)"
    unfolding advance_seqBase[symmetric] by (rule receiveFileLoop_step)
  have sf: "length sbuf = 5000 \<longrightarrow>
      sendFile sbuf P \<lparr>inbox = fileAcks P, sendsLeft = None, outbox = []\<rparr> =
        Inr \<lparr>snet = \<lparr>inbox = [], sendsLeft = None, outbox = filePackets P\<rparr>,
             totalTimeouts = (if P = [] then 0 else 1),
             sfile = \<lparr>unread = [], eofIndicator = True\<rparr>,
             overruns = allOverruns P\<rparr>"
    using sendFile_timely[of sbuf P]
    by (simp only: allPackets_filePackets timelyAcks_fileAcks) simp
  have rf: "length rbuf = 5000 \<longrightarrow>
      receiveFile rbuf \<lparr>inbox = map Datagram (filePackets P), sendsLeft = None, outbox = []\<rparr> =
        (if length P mod 5000 \<noteq> 0 then Returned else Blocked)
          \<lparr>rnet = \<lparr>inbox = [], sendsLeft = None, outbox = datagrams (fileAcks P)\<rparr>,
           written = P\<rparr>"
    using receiveFile_inorder[of rbuf P]
    by (simp only: allPackets_filePackets timelyAcks_fileAcks) simp
  from v st win wrap apart s0 sl r0 rl sf rf show ?thesis by (intro conjI)
qed

theorem sequence_base_invariant_witness:
  "(3::int) \<in> {0..9} \<and> length (replicate 5000 (0::byte)) = 5000 \<and>
   validBase (seqBase 11) \<and> packetNumber (seqBase 11 + 3) = 3 \<and>
   \<not> isPrevWindowAck (seqBase 11) (seqBase 11 + 3) \<and>
   isPrevWindowAck 0 (100 + 3) \<and> isPrevWindowAck 100 (0 + 3) \<and>
   map hdrSeq (filePackets (replicate 5001 1)) = [0, 1, 2, 3, 4, 5, 6, 7, 8, 9, 10] \<and>
   sendFile (replicate 5000 0) (replicate 5001 1)
       \<lparr>inbox = fileAcks (replicate 5001 1), sendsLeft = None, outbox = []\<rparr> =
     Inr \<lparr>snet = \<lparr>inbox = [], sendsLeft = None, outbox = filePackets (replicate 5001 1)\<rparr>,
          totalTimeouts = 1, sfile = \<lparr>unread = [], eofIndicator = True\<rparr>,
          overruns = allOverruns (replicate 5001 1)\<rparr> \<and>
   receiveFile (replicate 5000 0)
       \<lparr>inbox = map Datagram (filePackets (replicate 5001 1)), sendsLeft = None, outbox = []\<rparr> =
     Returned \<lparr>rnet = \<lparr>inbox = [], sendsLeft = None,
                       outbox = datagrams (fileAcks (replicate 5001 1))\<rparr>,
               written = replicate 5001 1\<rparr>"
proof -
  let ?P = "replicate 5001 (1 :: byte)"
  have m: "(3::int) \<in> {0..9}" by simp
  have wc: "windowCount ?P = 2" by (simp add: windowCount_def)
  have w0: "fileWindow ?P 0 = replicate 5000 1" by (simp add: fileWindow_def)
  have w1: "fileWindow ?P 1 = [1]" by (simp add: fileWindow_def)
  have pc: "packetCount (replicate 5000 (1 :: byte)) = 10" "packetCount [1 :: byte] = 1"
    by (simp_all add: packetCount_def)
  have b1: "seqBase 1 = 10"
    by (simp add: seqBase_def advance_def MAX_START_SEQ_def MAX_TIMEOUTS_def WINDOW_SIZE_def)
  have u2: "[0..<2] = [0, 1]" by (simp add: upt_rec)
  have ups: "[0..<10] = [0, 1, 2, 3, 4, 5, 6, 7, 8, 9]" by (simp add: upt_rec)
  have sq: "map hdrSeq (filePackets ?P) = [0, 1, 2, 3, 4, 5, 6, 7, 8, 9, 10]"
    unfolding filePackets_def wc u2
    by (simp add: w0 w1[simplified] windowPackets_def pc comp_def seqBase_0 b1[simplified]
          int_to_char_def ups)
  note t = sequence_base_invariant [where k = 11 and P = ?P and sbuf = "replicate 5000 0"
      and rbuf = "replicate 5000 0" and buf = "[]" and net = "\<lparr>inbox = [], sendsLeft = None, outbox = []\<rparr>"
      and rn = "\<lparr>inbox = [], sendsLeft = None, outbox = []\<rparr>"
      and s = "\<lparr>snet = \<lparr>inbox = [], sendsLeft = None, outbox = []\<rparr>, totalTimeouts = 0,
                sfile = fopen_rb [], overruns = []\<rparr>"
      and r = "\<lparr>rnet = \<lparr>inbox = [], sendsLeft = None, outbox = []\<rparr>, written = []\<rparr>"]
  from t m have a: "packetNumber (seqBase 11 + 3) = 3 \<and>
      \<not> isPrevWindowAck (seqBase 11) (seqBase 11 + 3) \<and>
      isPrevWindowAck 0 (100 + 3) \<and> isPrevWindowAck 100 (0 + 3)"
    by blast
  from t a sq show ?thesis by simp
qed

section \<open>The retry counter\<close>

text \<open>
  A file of more than 5000 bytes. The acks of the first window arrive in time, so the window ends
  with the counter at one; then the receive times out \<open>k\<close> more times. The second window
  starts with the counter the first one left, and its 100th timeout aborts the transfer.
  (The first window of such a file has ten full packets, so the run has gone through the
  out-of-bounds copies that \<open>overruns\<close> records; the abort ends the process and the
  record with it.)
\<close>

lemma sendFileLoop_next_window_abort:
  assumes "length buf = 5000" "validBase seq" "sendsLeft (snet s) = None"
    "\<not> eofIndicator (sfile s)" "5000 < length (unread (sfile s))"
    "inbox (snet s) =
       map Datagram (windowAcks (take 5000 (unread (sfile s))) seq) @
       Timeout # replicate k Timeout @ rest"
    "100 \<le> k"
  shows "sendFileLoop buf seq s = Inl ReceiverNotResponding"
proof -
  define U where "U = unread (sfile s)"
  define c1 where "c1 = take 5000 U"
  define f1 where "f1 = \<lparr>unread = drop 5000 U, eofIndicator = False\<rparr>"
  define b1 where "b1 = c1 @ drop (length c1) buf"
  define s1 where "s1 = s\<lparr>sfile := f1\<rparr>"
  define s2 where "s2 = s1\<lparr>snet := (snet s1)\<lparr>inbox := tl (Timeout # replicate k Timeout @ rest),
                     outbox := outbox (snet s1) @ windowPackets c1 seq (feof (sfile s1))\<rparr>,
                   totalTimeouts := 1,
                   overruns := overruns s1 @
                     sweepOverruns (int (length (c1 @ drop (length c1) buf))) (int (length c1)) initAcks\<rparr>"
  define c2 where "c2 = take 5000 (drop 5000 U)"
  define f2 where "f2 = snd (fread 5000 f1)"
  define b2 where "b2 = c2 @ drop (length c2) b1"
  define s3 where "s3 = s2\<lparr>sfile := f2\<rparr>"
  have lu: "5000 < length U" using assms(5) by (simp add: U_def)
  have c1: "c1 \<noteq> []" "length c1 \<le> 5000" using lu by (auto simp: c1_def)
  have c2: "c2 \<noteq> []" using lu by (auto simp: c2_def)
  have fr1: "fread 5000 (sfile s) = (c1, f1)"
    using assms(4) lu by (cases "sfile s") (simp add: fread_def c1_def f1_def U_def)
  have ib: "inbox (snet s1) = map Datagram (windowAcks c1 seq) @ Timeout # replicate k Timeout @ rest"
    using assms(6) by (simp add: s1_def c1_def U_def)
  have sl: "sendsLeft (snet s1) = None" using assms(3) by (simp add: s1_def)
  have w: "sendPackets b1 (int (length c1)) seq s1 = Inr s2"
    unfolding b1_def s2_def
    by (rule sendPackets_window[OF c1 assms(2) sl ib]) simp
  have st1: "sendFileLoop buf seq s = sendFileLoop b1 (advance seq) s2"
    unfolding sendFileLoop_step[OF fr1] b1_def[symmetric] s1_def[symmetric] w
    using c1(1) by simp
  have fr2: "fread 5000 (sfile s2) = (c2, f2)"
    by (simp add: s2_def s1_def f2_def f1_def c2_def fread_def)
  have st2: "sendFileLoop b1 (advance seq) s2 =
             (case sendPackets b2 (int (length c2)) (advance seq) s3 of
                Inl e \<Rightarrow> Inl e
              | Inr s'' \<Rightarrow> sendFileLoop b2 (advance (advance seq)) s'')"
    unfolding sendFileLoop_step[OF fr2] b2_def[symmetric] s3_def[symmetric]
    using c2 by simp
  have ne: "(0::int) \<noteq> numberOfPackets (int (length c2))"
    using packetCount_bounds(1)[OF c2] by (simp add: numberOfPackets_packetCount)
  have s3: "sendsLeft (snet s3) = None" "inbox (snet s3) = replicate k Timeout @ rest"
    "totalTimeouts s3 = 1"
    using assms(3) by (simp_all add: s3_def s2_def s1_def)
  have ab: "sendPackets b2 (int (length c2)) (advance seq) s3 = Inl ReceiverNotResponding"
    unfolding sendPackets_def
    using assms(7) by (intro sendPacketsLoop_abort[OF ne s3(1,2)]) (simp_all add: s3(3) MAX_TIMEOUTS_def)
  show ?thesis unfolding st1 st2 ab by simp
qed

text \<open>
  C7, as the code has it. The counter is the \<open>static\<close> of \<open>recvAcks\<close>, so it outlives each
  window. Every receive that times out increments it, also at the end of a phase that read
  acks, and every ack sets it to zero: a phase that read at least one ack ends with the
  counter at one, a phase that read none ends with the counter one higher than before, or
  aborts the transfer when that exceeds \<open>MAX_TIMEOUTS\<close>. A window neither resets the
  counter when it starts nor when it completes, and \<open>sendFile\<close>'s loop hands the state a
  window ends with to the next one. So a window whose acks came in time leaves the counter at
  one, and the window after it aborts the transfer at its 100th timeout in a row.
\<close>

theorem retry_counter_phase:
  assumes "rest = [] \<or> hd rest = Timeout"
  shows "recvAcks seq acks tt (net\<lparr>inbox := map Datagram bs @ rest\<rparr>) =
           (let tt' = (if bs = [] then tt + 1 else 1) in
            if tt' > MAX_TIMEOUTS then Inl ReceiverNotResponding
            else Inr (snd (foldl (ackStep seq) (acks, 0) bs),
                      fst (foldl (ackStep seq) (acks, 0) bs), tt', net\<lparr>inbox := tl rest\<rparr>)) \<and>
         sendPackets buf bufSize seq' (s\<lparr>totalTimeouts := tt\<rparr>) =
           sendPacketsLoop buf bufSize seq' initAcks 0 (s\<lparr>totalTimeouts := tt\<rparr>) \<and>
         sendPacketsLoop buf bufSize seq' acks' (numberOfPackets bufSize) (s\<lparr>totalTimeouts := tt\<rparr>) =
           Inr (s\<lparr>totalTimeouts := tt\<rparr>) \<and>
         sendFileLoop buf seq' s =
           (case fread 5000 (sfile s) of
              (chunk, f') \<Rightarrow>
                if chunk = [] then Inr (s\<lparr>sfile := f'\<rparr>)
                else (case sendPackets (chunk @ drop (length chunk) buf) (int (length chunk)) seq'
                             (s\<lparr>sfile := f'\<rparr>) of
                        Inl e \<Rightarrow> Inl e
                      | Inr s'' \<Rightarrow>
                          sendFileLoop (chunk @ drop (length chunk) buf) (advance seq') s'')) \<and>
         (length buf = 5000 \<and> validBase seq' \<and> sendsLeft (snet s) = None \<and>
          \<not> eofIndicator (sfile s) \<and> 5000 < length (unread (sfile s)) \<and>
          inbox (snet s) =
            map Datagram (windowAcks (take 5000 (unread (sfile s))) seq') @
            Timeout # replicate k Timeout @ later \<and>
          100 \<le> k \<longrightarrow>
          sendFileLoop buf seq' s = Inl ReceiverNotResponding)"
proof (intro conjI impI)
  show "recvAcks seq acks tt (net\<lparr>inbox := map Datagram bs @ rest\<rparr>) =
           (let tt' = (if bs = [] then tt + 1 else 1) in
            if tt' > MAX_TIMEOUTS then Inl ReceiverNotResponding
            else Inr (snd (foldl (ackStep seq) (acks, 0) bs),
                      fst (foldl (ackStep seq) (acks, 0) bs), tt', net\<lparr>inbox := tl rest\<rparr>))"
    using assms by (rule recvAcks_phase)
  show "sendPackets buf bufSize seq' (s\<lparr>totalTimeouts := tt\<rparr>) =
           sendPacketsLoop buf bufSize seq' initAcks 0 (s\<lparr>totalTimeouts := tt\<rparr>)"
    by (simp add: sendPackets_def)
  show "sendPacketsLoop buf bufSize seq' acks' (numberOfPackets bufSize) (s\<lparr>totalTimeouts := tt\<rparr>) =
           Inr (s\<lparr>totalTimeouts := tt\<rparr>)"
    by (rule sendPacketsLoop_done)
  show "sendFileLoop buf seq' s =
           (case fread 5000 (sfile s) of
              (chunk, f') \<Rightarrow>
                if chunk = [] then Inr (s\<lparr>sfile := f'\<rparr>)
                else (case sendPackets (chunk @ drop (length chunk) buf) (int (length chunk)) seq'
                             (s\<lparr>sfile := f'\<rparr>) of
                        Inl e \<Rightarrow> Inl e
                      | Inr s'' \<Rightarrow>
                          sendFileLoop (chunk @ drop (length chunk) buf) (advance seq') s''))"
    by (rule sendFileLoop_unfold)
  assume a: "length buf = 5000 \<and> validBase seq' \<and> sendsLeft (snet s) = None \<and>
          \<not> eofIndicator (sfile s) \<and> 5000 < length (unread (sfile s)) \<and>
          inbox (snet s) =
            map Datagram (windowAcks (take 5000 (unread (sfile s))) seq') @
            Timeout # replicate k Timeout @ later \<and>
          100 \<le> k"
  then show "sendFileLoop buf seq' s = Inl ReceiverNotResponding"
    by (intro sendFileLoop_next_window_abort[where k = k and rest = later]) simp_all
qed

theorem retry_counter_phase_witness:
  "([Timeout :: byte recv_result] = [] \<or> hd [Timeout :: byte recv_result] = Timeout) \<and>
   recvAcks 0 initAcks 5 \<lparr>inbox = [Timeout], sendsLeft = None, outbox = ([] :: dgram list)\<rparr> =
     Inr (0, initAcks, 6, \<lparr>inbox = [], sendsLeft = None, outbox = []\<rparr>) \<and>
   length (replicate 5000 (0 :: byte)) = 5000 \<and> validBase 0 \<and>
   5000 < length (replicate 5001 (1 :: byte)) \<and> (100 :: nat) \<le> 100 \<and>
   sendFile (replicate 5000 0) (replicate 5001 1)
       \<lparr>inbox = map Datagram (windowAcks (replicate 5000 1) 0) @ Timeout # replicate 100 Timeout,
        sendsLeft = None, outbox = []\<rparr> =
     Inl ReceiverNotResponding"
proof -
  have v: "validBase 0" by (simp add: validBase_def)
  note t = retry_counter_phase [where rest = "[Timeout]" and seq = 0 and acks = initAcks and tt = 5
      and net = "\<lparr>inbox = [], sendsLeft = None, outbox = ([] :: dgram list)\<rparr>" and bs = "[]"
      and buf = "replicate 5000 0" and bufSize = 1 and seq' = 0 and acks' = initAcks
      and s = "\<lparr>snet = \<lparr>inbox = map Datagram (windowAcks (replicate 5000 1) 0) @
                                  Timeout # replicate 100 Timeout,
                              sendsLeft = None, outbox = []\<rparr>,
                totalTimeouts = 0, sfile = fopen_rb (replicate 5001 1), overruns = []\<rparr>"
      and k = 100 and later = "[]"]
  have h: "[Timeout :: byte recv_result] = [] \<or> hd [Timeout :: byte recv_result] = Timeout"
    by simp
  note c1 = t[OF h, THEN conjunct1]
    and c5 = t[OF h, THEN conjunct2, THEN conjunct2, THEN conjunct2, THEN conjunct2]
  from c1 have a: "recvAcks 0 initAcks 5 \<lparr>inbox = [Timeout], sendsLeft = None, outbox = ([] :: dgram list)\<rparr> =
     Inr (0, initAcks, 6, \<lparr>inbox = [], sendsLeft = None, outbox = []\<rparr>)"
    by (simp add: MAX_TIMEOUTS_def)
  from c5 v have b: "sendFile (replicate 5000 0) (replicate 5001 1)
       \<lparr>inbox = map Datagram (windowAcks (replicate 5000 1) 0) @ Timeout # replicate 100 Timeout,
        sendsLeft = None, outbox = []\<rparr> =
     Inl ReceiverNotResponding"
    by (simp add: sendFile_def fopen_rb_def)
  from h a b v show ?thesis by simp
qed

theorem retry_counter_after_ack_counterexample:
  "recvAcks 0 initAcks 0 \<lparr>inbox = [Datagram 0, Timeout], sendsLeft = None, outbox = ([] :: dgram list)\<rparr> =
     Inr (1, initAcks[0 := True], 1, \<lparr>inbox = [], sendsLeft = None, outbox = []\<rparr>)"
proof -
  have st: "ackStep 0 (initAcks, 0) 0 = (initAcks[0 := True], 1)"
    by (simp add: ackStep_def Let_def char_to_int_def isPrevWindowAck_def packetNumber_def
          WINDOW_SIZE_def initAcks_def)
  have "recvAcks 0 initAcks 0
          (\<lparr>inbox = [], sendsLeft = None, outbox = ([] :: dgram list)\<rparr>\<lparr>inbox := map Datagram [0] @ [Timeout]\<rparr>) =
        Inr (1, initAcks[0 := True], 1, \<lparr>inbox = [], sendsLeft = None, outbox = []\<rparr>)"
    by (subst recvAcks_phase) (simp_all add: st MAX_TIMEOUTS_def)
  then show ?thesis by simp
qed

end
